theory Spec2Isabelle
  imports Complex_Main "HOL-Library.Multiset"
begin

section \<open>The scene: data blocks of the host\<close>

text \<open>
  The routines of the add-on read and write the scene of the host application through
  \<open>bpy.data\<close> and \<open>bpy.context\<close>. The scene is modelled as a record that every routine
  takes and returns. A data block is referred to by its identity (its address in the
  host), a natural number here; its name is an ordinary field, because the routines
  rename blocks. Collections are lists in the host's enumeration order.

  The user count \<open>users\<close> of a block is a counter that the host keeps equal to the number
  of references to the block. It is computed here from the references the scene holds,
  plus a number of further users per block (a fake user, a reference from a block kind
  that is not modelled).

  The material slots of a mesh object (\<open>obj.material_slots\<close>) are the entries of the
  material list of its mesh (\<open>obj.data.materials\<close>): slots are linked to the object data,
  which is the host's default. The active object is referred to by its name; object
  names are unique in the host.

  The host keeps the names of the blocks of a collection unique: an assignment to \<open>name\<close>
  stores the requested name when no other block of the collection has it, and otherwise
  a name that the host derives from it by a numeric suffix. The host's choice is a
  parameter \<open>id_name\<close> of the routines that assign a name without a look at the other
  blocks: it maps the names of the other blocks and the requested name to the name that
  is stored.

  Coordinates are floating point numbers. The routines only compare them, with the
  equality of Python floats: a NaN is equal to nothing, itself included, and the two zeros
  are equal. Finite values are taken from the reals. Pixel values are only tested for
  presence and handed to a digest; they are reals here.
\<close>

type_synonym ref = nat

datatype node_type = TEX_IMAGE | OTHER_NODE

record node =
  nd_type :: node_type
  nd_image :: "ref option"

record material =
  mat_id :: ref
  mat_name :: string
  use_nodes :: bool
  node_tree :: "node list option"
  mat_extra_users :: nat

datatype image_source = FILE | GENERATED | OTHER_SOURCE

record image =
  img_id :: ref
  img_name :: string
  packed_file :: bool
  img_source :: image_source
  pixels :: "real list"
  filepath :: string
  img_extra_users :: nat

record polygon =
  poly_vertices :: "nat list"
  material_index :: nat

datatype pyfloat = Finite real | MinusZero | PlusInfinity | MinusInfinity | NaN

definition float_eq :: "pyfloat \<Rightarrow> pyfloat \<Rightarrow> bool" where
  "float_eq a b \<longleftrightarrow>
     a \<noteq> NaN \<and> b \<noteq> NaN \<and>
     (a = b \<or> (a = MinusZero \<and> b = Finite 0) \<or> (a = Finite 0 \<and> b = MinusZero))"

record vertex =
  co :: "pyfloat \<times> pyfloat \<times> pyfloat"

record edge =
  edge_vertices :: "nat \<times> nat"

record mesh =
  mesh_id :: ref
  mesh_name :: string
  vertices :: "vertex list"
  edges :: "edge list"
  polygons :: "polygon list"
  mesh_materials :: "ref option list"
  mesh_extra_users :: nat

datatype object_type = MESH | OTHER_OBJECT

record object =
  obj_name :: string
  obj_type :: object_type
  obj_data :: "ref option"

record scene =
  images :: "image list"
  materials :: "material list"
  meshes :: "mesh list"
  objects :: "object list"
  active_object :: "string option"

datatype error = IndexOutOfRange | NoMeshData

text \<open>
  The nodes of a material. The host creates the node tree when \<open>use_nodes\<close> is set, so a
  material with \<open>use_nodes\<close> and no node tree does not occur; a missing tree has no nodes.
\<close>

definition nodes_of :: "material \<Rightarrow> node list" where
  "nodes_of m = (case node_tree m of None \<Rightarrow> [] | Some nds \<Rightarrow> nds)"

text \<open>The user counts.\<close>

definition mesh_users :: "scene \<Rightarrow> mesh \<Rightarrow> nat" where
  "mesh_users sc me =
     length (filter (\<lambda>obj. obj_data obj = Some (mesh_id me)) (objects sc)) + mesh_extra_users me"

definition material_users :: "scene \<Rightarrow> material \<Rightarrow> nat" where
  "material_users sc m =
     sum_list (map (\<lambda>me. length (filter (\<lambda>s. s = Some (mat_id m)) (mesh_materials me)))
                 (meshes sc)) + mat_extra_users m"

definition image_users :: "scene \<Rightarrow> image \<Rightarrow> nat" where
  "image_users sc i =
     sum_list (map (\<lambda>m. length (filter (\<lambda>nd. nd_image nd = Some (img_id i)) (nodes_of m)))
                 (materials sc)) + img_extra_users i"


text \<open>Lookup of a block by identity, and the replacement of a block in its collection.\<close>

definition image_of :: "scene \<Rightarrow> ref \<Rightarrow> image option" where
  "image_of sc r = find (\<lambda>i. img_id i = r) (images sc)"

definition material_of :: "scene \<Rightarrow> ref \<Rightarrow> material option" where
  "material_of sc r = find (\<lambda>m. mat_id m = r) (materials sc)"

definition mesh_of :: "scene \<Rightarrow> ref \<Rightarrow> mesh option" where
  "mesh_of sc r = find (\<lambda>m. mesh_id m = r) (meshes sc)"

definition put_mesh :: "mesh \<Rightarrow> scene \<Rightarrow> scene" where
  "put_mesh me sc =
     sc\<lparr>meshes := map (\<lambda>m. if mesh_id m = mesh_id me then me else m) (meshes sc)\<rparr>"

definition active :: "scene \<Rightarrow> object option" where
  "active sc =
     (case active_object sc of
        None \<Rightarrow> None
      | Some n \<Rightarrow> find (\<lambda>obj. obj_name obj = n) (objects sc))"

section \<open>Material slots (material\_utils.py)\<close>

subsection \<open>get\_first\_image\_texture\<close>

fun first_tex_image :: "node list \<Rightarrow> ref option" where
  "first_tex_image [] = None"
| "first_tex_image (nd # nds) =
     (if nd_type nd = TEX_IMAGE \<and> nd_image nd \<noteq> None then nd_image nd
      else first_tex_image nds)"

definition get_first_image_texture :: "material option \<Rightarrow> ref option" where
  "get_first_image_texture material =
     (case material of
        None \<Rightarrow> None
      | Some m \<Rightarrow>
          if use_nodes m then
            (case node_tree m of None \<Rightarrow> None | Some nds \<Rightarrow> first_tex_image nds)
          else None)"

subsection \<open>remove\_duplicate\_material\_slots\<close>

text \<open>
  The state of the loop over the slot indices: the dictionary \<open>material_texture_map\<close>,
  the list \<open>slots_to_remove\<close> and the polygons of the mesh, whose \<open>material_index\<close> the
  loop rewrites. The key of the dictionary is the pair of the material and its first
  image; both are host objects, compared by identity.
\<close>

type_synonym slot_state = "((ref \<times> ref option) \<rightharpoonup> nat) \<times> nat list \<times> polygon list"

definition slot_body :: "scene \<Rightarrow> ref option list \<Rightarrow> nat \<Rightarrow> slot_state \<Rightarrow> slot_state" where
  "slot_body sc mats i st =
     (case st of (material_texture_map, slots_to_remove, polys) \<Rightarrow>
        (case mats ! i of
           None \<Rightarrow> (material_texture_map, slots_to_remove @ [i], polys)
         | Some mat \<Rightarrow>
             (let first_image = get_first_image_texture (material_of sc mat);
                  mat_key = (mat, first_image)
              in case material_texture_map mat_key of
                   None \<Rightarrow> (material_texture_map(mat_key \<mapsto> i), slots_to_remove, polys)
                 | Some original_slot_index \<Rightarrow>
                     (material_texture_map, slots_to_remove @ [i],
                      map (\<lambda>poly. if material_index poly = i
                                   then poly\<lparr>material_index := original_slot_index\<rparr>
                                   else poly) polys))))"

text \<open>
  \<open>for i in range(len(obj.data.materials) - 1, -1, -1)\<close>: \<open>slot_loop sc mats lo n st\<close>
  runs the body for \<open>i = n - 1\<close> down to \<open>lo\<close>; the loop of the routine is the one
  with \<open>lo = 0\<close>, and \<open>slot_loop sc mats (Suc i) n st\<close> is the state in which it reaches
  index \<open>i\<close>.
\<close>

fun slot_loop :: "scene \<Rightarrow> ref option list \<Rightarrow> nat \<Rightarrow> nat \<Rightarrow> slot_state \<Rightarrow> slot_state" where
  "slot_loop sc mats lo 0 st = st"
| "slot_loop sc mats lo (Suc i) st =
     (if lo \<le> i then slot_loop sc mats lo i (slot_body sc mats i st) else st)"

text \<open>
  \<open>obj.data.materials.pop(index=index)\<close> is an operation of the host. It raises when the
  index is out of range; otherwise it removes the entry of the material list and
  renumbers the polygons of the mesh: every \<open>material_index\<close> that is positive and not
  below the removed index is decremented (the host's \<open>BKE_mesh_material_index_remove\<close>,
  called by \<open>BKE_id_material_pop\<close>).
\<close>

definition pop_material :: "nat \<Rightarrow> mesh \<Rightarrow> error + mesh" where
  "pop_material index me =
     (if index < length (mesh_materials me) then
        Inr (me\<lparr>mesh_materials :=
                   take index (mesh_materials me) @ drop (Suc index) (mesh_materials me),
                 polygons :=
                   map (\<lambda>p. if 0 < material_index p \<and> index \<le> material_index p
                            then p\<lparr>material_index := material_index p - 1\<rparr> else p)
                     (polygons me)\<rparr>)
      else Inl IndexOutOfRange)"

fun pop_all :: "nat list \<Rightarrow> mesh \<Rightarrow> error + mesh" where
  "pop_all [] me = Inr me"
| "pop_all (index # rest) me =
     (case pop_material index me of Inl e \<Rightarrow> Inl e | Inr me' \<Rightarrow> pop_all rest me')"

text \<open>
  The routine on the mesh of the active object: the loop, then
  \<open>slots_to_remove.sort()\<close> and the removals \<open>for index in reversed(slots_to_remove)\<close>.
\<close>

definition slots_after_loop :: "scene \<Rightarrow> mesh \<Rightarrow> slot_state" where
  "slots_after_loop sc me =
     slot_loop sc (mesh_materials me) 0 (length (mesh_materials me))
       (Map.empty, [], polygons me)"

definition compact_mesh :: "scene \<Rightarrow> mesh \<Rightarrow> error + mesh" where
  "compact_mesh sc me =
     (case slots_after_loop sc me of (material_texture_map, slots_to_remove, polys) \<Rightarrow>
        pop_all (rev (sort slots_to_remove)) (me\<lparr>polygons := polys\<rparr>))"

definition remove_duplicate_material_slots :: "scene \<Rightarrow> error + scene" where
  "remove_duplicate_material_slots sc =
     (case active sc of
        None \<Rightarrow> Inr sc
      | Some obj \<Rightarrow>
          if obj_type obj \<noteq> MESH then Inr sc
          else (case obj_data obj of
                  None \<Rightarrow> Inl NoMeshData
                | Some r \<Rightarrow>
                    (case mesh_of sc r of
                       None \<Rightarrow> Inl NoMeshData
                     | Some me \<Rightarrow>
                         (case compact_mesh sc me of
                            Inl e \<Rightarrow> Inl e
                          | Inr me' \<Rightarrow> Inr (put_mesh me' sc)))))"

subsection \<open>Auxiliary notions for the slot routine\<close>

text \<open>
  The key under which the loop stores a material, and the predicates of the loop
  invariant: \<open>last_at mats k\<close> says that slot \<open>k\<close> holds a material and no later slot holds
  the same one; \<open>poly_ok mats i po pc\<close> relates a polygon before the loop (\<open>po\<close>) to the
  same polygon once the indices from \<open>i\<close> upwards have been visited (\<open>pc\<close>).
\<close>

definition key_of :: "scene \<Rightarrow> ref \<Rightarrow> ref \<times> ref option" where
  "key_of sc mat = (mat, get_first_image_texture (material_of sc mat))"

definition last_at :: "ref option list \<Rightarrow> nat \<Rightarrow> bool" where
  "last_at mats k \<longleftrightarrow>
     k < length mats \<and> mats ! k \<noteq> None \<and>
     (\<forall>j. k < j \<and> j < length mats \<longrightarrow> mats ! j \<noteq> mats ! k)"

definition poly_ok :: "ref option list \<Rightarrow> nat \<Rightarrow> polygon \<Rightarrow> polygon \<Rightarrow> bool" where
  "poly_ok mats i po pc \<longleftrightarrow>
     poly_vertices pc = poly_vertices po \<and>
     (if i \<le> material_index po \<and> material_index po < length mats \<and>
         mats ! material_index po \<noteq> None
      then material_index po \<le> material_index pc \<and> last_at mats (material_index pc) \<and>
           mats ! material_index pc = mats ! material_index po
      else material_index pc = material_index po)"

definition slot_inv ::
  "scene \<Rightarrow> ref option list \<Rightarrow> polygon list \<Rightarrow> nat \<Rightarrow> slot_state \<Rightarrow> bool" where
  "slot_inv sc mats orig i st =
     (case st of (mp, rs, polys) \<Rightarrow>
        (\<forall>key k. mp key = Some k \<longrightarrow> i \<le> k \<and> last_at mats k \<and> mats ! k = Some (fst key)) \<and>
        (\<forall>j mat. i \<le> j \<and> j < length mats \<and> mats ! j = Some mat \<longrightarrow>
                 mp (key_of sc mat) \<noteq> None) \<and>
        sorted_wrt (>) rs \<and>
        (\<forall>r\<in>set rs. i \<le> r \<and> r < length mats \<and> \<not> last_at mats r) \<and>
        list_all2 (poly_ok mats i) orig polys)"

text \<open>
  \<open>poly_kept rs me me'\<close>: every polygon of \<open>me\<close> whose slot index is in range and is not
  among the removed indices \<open>rs\<close> points, in \<open>me'\<close>, into the material list and at the
  entry it pointed at before.
\<close>

definition poly_kept :: "nat list \<Rightarrow> mesh \<Rightarrow> mesh \<Rightarrow> bool" where
  "poly_kept rs me me' \<longleftrightarrow>
     length (polygons me') = length (polygons me) \<and>
     (\<forall>q<length (polygons me).
        poly_vertices (polygons me' ! q) = poly_vertices (polygons me ! q) \<and>
        (material_index (polygons me ! q) < length (mesh_materials me) \<and>
         material_index (polygons me ! q) \<notin> set rs \<longrightarrow>
           material_index (polygons me' ! q) < length (mesh_materials me') \<and>
           mesh_materials me' ! material_index (polygons me' ! q) =
             mesh_materials me ! material_index (polygons me ! q)))"

text \<open>
  A small scene for concrete runs: two materials without nodes (identities 1 and 2), one
  mesh with the given slots and one polygon per given slot index, and one mesh object,
  which is active.
\<close>

definition plain_material :: "ref \<Rightarrow> string \<Rightarrow> material" where
  "plain_material r nm =
     \<lparr>mat_id = r, mat_name = nm, use_nodes = False, node_tree = None, mat_extra_users = 0\<rparr>"

definition slot_mesh :: "ref option list \<Rightarrow> nat list \<Rightarrow> mesh" where
  "slot_mesh mats idxs =
     \<lparr>mesh_id = 0, mesh_name = ''Mesh'', vertices = [], edges = [],
      polygons = map (\<lambda>i. \<lparr>poly_vertices = [], material_index = i\<rparr>) idxs,
      mesh_materials = mats, mesh_extra_users = 0\<rparr>"

definition slot_scene :: "ref option list \<Rightarrow> nat list \<Rightarrow> scene" where
  "slot_scene mats idxs =
     \<lparr>images = [], materials = [plain_material 1 ''A'', plain_material 2 ''B''],
      meshes = [slot_mesh mats idxs],
      objects = [\<lparr>obj_name = ''Object'', obj_type = MESH, obj_data = Some 0\<rparr>],
      active_object = Some ''Object''\<rparr>"


section \<open>Duplicate meshes (mesh\_utils.py)\<close>

subsection \<open>remove\_duplicate\_meshes\<close>

text \<open>
  The geometry key \<open>geom_hash\<close> of the routine: the tuple of the vertex coordinates, the
  vertex pairs of the edges and the vertex lists of the polygons, each in storage order.
\<close>

type_synonym geom =
  "(pyfloat \<times> pyfloat \<times> pyfloat) list \<times> (nat \<times> nat) list \<times> nat list list"

definition geom_hash :: "mesh \<Rightarrow> geom" where
  "geom_hash mesh =
     (map co (vertices mesh), map edge_vertices (edges mesh), map poly_vertices (polygons mesh))"

text \<open>
  The dictionary \<open>mesh_data_blocks\<close> compares keys as Python compares tuples: two tuples are
  equal when they have the same length and equal components. The floats of a key are
  made anew for every key (\<open>tuple(v.co)\<close>), so no component of one key is the same object
  as a component of another, and coordinates are compared with the equality of floats;
  the vertex indices are integers. Equal keys have equal hashes. A lookup finds the
  entry whose key is equal to the given key; the assignment of the loop is only reached
  when there is none, and adds an entry.
\<close>

definition co_eq :: "pyfloat \<times> pyfloat \<times> pyfloat \<Rightarrow> pyfloat \<times> pyfloat \<times> pyfloat \<Rightarrow> bool" where
  "co_eq c c' =
     (case c of (x, y, z) \<Rightarrow> case c' of (x', y', z') \<Rightarrow>
        float_eq x x' \<and> float_eq y y' \<and> float_eq z z')"

definition key_eq :: "geom \<Rightarrow> geom \<Rightarrow> bool" where
  "key_eq g g' =
     (case g of (vs, es, ps) \<Rightarrow> case g' of (vs', es', ps') \<Rightarrow>
        list_all2 co_eq vs vs' \<and> es = es' \<and> ps = ps')"

definition dict_get :: "(geom \<times> mesh) list \<Rightarrow> geom \<Rightarrow> mesh option" where
  "dict_get d g = map_option snd (find (\<lambda>entry. key_eq (fst entry) g) d)"

text \<open>
  What the routine prints after its opening line: a replacement per repointed object (the
  object, the old mesh, the new mesh), a deletion, a name that no longer resolves, and the
  closing summary.
\<close>

datatype mesh_report =
    Replaced string string string
  | Deleted string
  | AlreadyRemoved string
  | NoDuplicates
  | Finished nat

record mesh_loop =
  ml_scene :: scene
  mesh_data_blocks :: "(geom \<times> mesh) list"
  mesh_names_to_delete :: "string list"
  duplicates_found :: nat
  ml_reports :: "mesh_report list"

text \<open>
  The body of the first loop, for one mesh of \<open>bpy.data.meshes\<close>. The loop does not change
  the collection of meshes, only the \<open>data\<close> of objects.
\<close>

definition replace_mesh :: "mesh \<Rightarrow> mesh \<Rightarrow> scene \<Rightarrow> scene" where
  "replace_mesh mesh source_mesh sc =
     sc\<lparr>objects :=
          map (\<lambda>obj. if obj_data obj = Some (mesh_id mesh)
                      then obj\<lparr>obj_data := Some (mesh_id source_mesh)\<rparr> else obj)
            (objects sc)\<rparr>"

definition mesh_step :: "mesh_loop \<Rightarrow> mesh \<Rightarrow> mesh_loop" where
  "mesh_step st mesh =
     (if mesh_users (ml_scene st) mesh = 0 then st
      else case dict_get (mesh_data_blocks st) (geom_hash mesh) of
             Some source_mesh \<Rightarrow>
               (let objects_to_update =
                      filter (\<lambda>obj. obj_data obj = Some (mesh_id mesh)) (objects (ml_scene st));
                    sc' = replace_mesh mesh source_mesh (ml_scene st)
                in st\<lparr>ml_scene := sc',
                      duplicates_found := duplicates_found st + length objects_to_update,
                      ml_reports := ml_reports st @
                        map (\<lambda>obj. Replaced (obj_name obj) (mesh_name mesh) (mesh_name source_mesh))
                          objects_to_update,
                      mesh_names_to_delete :=
                        (if mesh_users sc' mesh = 0
                         then mesh_names_to_delete st @ [mesh_name mesh]
                         else mesh_names_to_delete st)\<rparr>)
           | None \<Rightarrow> st\<lparr>mesh_data_blocks := mesh_data_blocks st @ [(geom_hash mesh, mesh)]\<rparr>)"

definition mesh_first_pass :: "scene \<Rightarrow> mesh_loop" where
  "mesh_first_pass sc =
     foldl mesh_step
       \<lparr>ml_scene = sc, mesh_data_blocks = [], mesh_names_to_delete = [],
        duplicates_found = 0, ml_reports = []\<rparr>
       (meshes sc)"

text \<open>
  The second loop. \<open>bpy.data.meshes.get(name)\<close> is the first mesh with that name.
  \<open>bpy.data.meshes.remove(mesh)\<close> is called with the host's defaults: it unlinks every use
  of the mesh before deleting it, which deletes the objects that instance the mesh. The
  loop does not read \<open>users\<close>.
\<close>

definition get_mesh :: "scene \<Rightarrow> string \<Rightarrow> mesh option" where
  "get_mesh sc n = find (\<lambda>m. mesh_name m = n) (meshes sc)"

definition remove_mesh :: "mesh \<Rightarrow> scene \<Rightarrow> scene" where
  "remove_mesh me sc =
     sc\<lparr>meshes := filter (\<lambda>m. mesh_id m \<noteq> mesh_id me) (meshes sc),
        objects := filter (\<lambda>obj. obj_data obj \<noteq> Some (mesh_id me)) (objects sc)\<rparr>"

definition mesh_delete_step :: "scene \<times> mesh_report list \<Rightarrow> string \<Rightarrow> scene \<times> mesh_report list" where
  "mesh_delete_step st n =
     (case st of (sc, reports) \<Rightarrow>
        (case get_mesh sc n of
           Some mesh_to_remove \<Rightarrow> (remove_mesh mesh_to_remove sc, reports @ [Deleted n])
         | None \<Rightarrow> (sc, reports @ [AlreadyRemoved n])))"

definition remove_duplicate_meshes :: "scene \<Rightarrow> scene \<times> mesh_report list" where
  "remove_duplicate_meshes sc =
     (let st = mesh_first_pass sc;
          (sc', reports) =
             foldl mesh_delete_step (ml_scene st, ml_reports st) (mesh_names_to_delete st)
      in (sc', reports @ [if duplicates_found st = 0 then NoDuplicates
                          else Finished (duplicates_found st)]))"

subsection \<open>Example scenes for the mesh routine\<close>

text \<open>
  A one-triangle mesh with the given vertices, and a scene of two such meshes, each used by
  one object. \<open>tri_mesh\<close> takes finite coordinates, \<open>triangle_with x\<close> is a triangle whose
  first coordinate is \<open>x\<close>; the second mesh of \<open>two_meshes\<close> has
  \<open>extra\<close> further users (a fake user, say).
\<close>

definition float_mesh :: "ref \<Rightarrow> string \<Rightarrow> (pyfloat \<times> pyfloat \<times> pyfloat) list \<Rightarrow> nat \<Rightarrow> mesh" where
  "float_mesh r nm cs extra =
     \<lparr>mesh_id = r, mesh_name = nm, vertices = map (\<lambda>c. \<lparr>co = c\<rparr>) cs,
      edges = [\<lparr>edge_vertices = (0, 1)\<rparr>, \<lparr>edge_vertices = (1, 2)\<rparr>, \<lparr>edge_vertices = (0, 2)\<rparr>],
      polygons = [\<lparr>poly_vertices = [0, 1, 2], material_index = 0\<rparr>],
      mesh_materials = [], mesh_extra_users = extra\<rparr>"

definition triangle_with :: "pyfloat \<Rightarrow> (pyfloat \<times> pyfloat \<times> pyfloat) list" where
  "triangle_with x =
     [(x, Finite 0, Finite 0), (Finite 1, Finite 0, Finite 0), (Finite 0, Finite 1, Finite 0)]"

definition tri_mesh :: "ref \<Rightarrow> string \<Rightarrow> (real \<times> real \<times> real) list \<Rightarrow> nat \<Rightarrow> mesh" where
  "tri_mesh r nm cs extra =
     float_mesh r nm (map (\<lambda>(x, y, z). (Finite x, Finite y, Finite z)) cs) extra"

definition mesh_pair :: "mesh \<Rightarrow> mesh \<Rightarrow> scene" where
  "mesh_pair m1 m2 =
     \<lparr>images = [], materials = [], meshes = [m1, m2],
      objects = [\<lparr>obj_name = ''a'', obj_type = MESH, obj_data = Some (mesh_id m1)\<rparr>,
                 \<lparr>obj_name = ''b'', obj_type = MESH, obj_data = Some (mesh_id m2)\<rparr>],
      active_object = None\<rparr>"

definition two_meshes :: "(real \<times> real \<times> real) list \<Rightarrow> nat \<Rightarrow> scene" where
  "two_meshes cs extra =
     mesh_pair (tri_mesh 1 ''Cube'' [(0, 0, 0), (1, 0, 0), (0, 1, 0)] 0)
       (tri_mesh 2 ''Cube.001'' cs extra)"

subsection \<open>Auxiliary notions for the mesh routine\<close>

text \<open>
  With respect to the scene \<open>sc\<close> in which the routine starts and a list \<open>ms\<close> of meshes in
  enumeration order: \<open>source_of sc ms g\<close> is the first mesh of \<open>ms\<close> that is in use in \<open>sc\<close>
  and has a key equal to \<open>g\<close>; \<open>repoint sc ms r\<close> is the mesh an object with data \<open>r\<close>
  refers to once the meshes \<open>ms\<close> have been visited; \<open>queued sc ms m\<close> says that the visit of
  \<open>m\<close> has put the name of \<open>m\<close> on the list of names to delete.
\<close>

definition source_of :: "scene \<Rightarrow> mesh list \<Rightarrow> geom \<Rightarrow> mesh option" where
  "source_of sc ms g = find (\<lambda>m. mesh_users sc m \<noteq> 0 \<and> key_eq (geom_hash m) g) ms"

definition repoint :: "scene \<Rightarrow> mesh list \<Rightarrow> ref \<Rightarrow> ref" where
  "repoint sc ms r =
     (case find (\<lambda>m. mesh_id m = r \<and> mesh_users sc m \<noteq> 0) ms of
        None \<Rightarrow> r
      | Some m \<Rightarrow> (case source_of sc ms (geom_hash m) of
                    Some src \<Rightarrow> mesh_id src
                  | None \<Rightarrow> r))"

definition queued :: "scene \<Rightarrow> mesh list \<Rightarrow> mesh \<Rightarrow> bool" where
  "queued sc ms m \<longleftrightarrow>
     mesh_users sc m \<noteq> 0 \<and> mesh_extra_users m = 0 \<and>
     (case source_of sc ms (geom_hash m) of None \<Rightarrow> False | Some src \<Rightarrow> src \<noteq> m)"

definition repointed :: "scene \<Rightarrow> mesh list \<Rightarrow> object list" where
  "repointed sc ms =
     map (\<lambda>obj. obj\<lparr>obj_data := map_option (repoint sc ms) (obj_data obj)\<rparr>) (objects sc)"

definition mesh_inv :: "scene \<Rightarrow> mesh list \<Rightarrow> mesh_loop \<Rightarrow> bool" where
  "mesh_inv sc ms st \<longleftrightarrow>
     ml_scene st = sc\<lparr>objects := repointed sc ms\<rparr> \<and>
     (\<forall>g. dict_get (mesh_data_blocks st) g = source_of sc ms g) \<and>
     mesh_names_to_delete st = map mesh_name (filter (queued sc ms) ms)"
section \<open>Images (texture\_utils.py)\<close>

subsection \<open>Operations on strings\<close>

text \<open>
  The operations of Python's \<open>str\<close> that the routines use, on strings of ASCII characters:
  \<open>strip()\<close> removes leading and trailing whitespace, \<open>replace(" ", "")\<close> removes the space
  character only, \<open>lower()\<close> maps \<open>A..Z\<close> to \<open>a..z\<close>, \<open>split(',', 1)\<close> cuts at the first comma.
\<close>

definition is_space :: "char \<Rightarrow> bool" where
  "is_space c \<longleftrightarrow>
     c \<in> set [CHR 0x09, CHR 0x0A, CHR 0x0B, CHR 0x0C, CHR 0x0D,
                CHR 0x1C, CHR 0x1D, CHR 0x1E, CHR 0x1F, CHR 0x20]"

definition is_digit :: "char \<Rightarrow> bool" where
  "is_digit c \<longleftrightarrow> c \<in> set ''0123456789''"

definition is_alnum :: "char \<Rightarrow> bool" where
  "is_alnum c \<longleftrightarrow>
     c \<in> set ''0123456789ABCDEFGHIJKLMNOPQRSTUVWXYZabcdefghijklmnopqrstuvwxyz''"

definition strip :: "string \<Rightarrow> string" where
  "strip s = rev (dropWhile is_space (rev (dropWhile is_space s)))"

definition remove_spaces :: "string \<Rightarrow> string" where
  "remove_spaces s = filter (\<lambda>c. c \<noteq> CHR '' '') s"

definition lower_char :: "char \<Rightarrow> char" where
  "lower_char c =
     (case map_of (zip ''ABCDEFGHIJKLMNOPQRSTUVWXYZ'' ''abcdefghijklmnopqrstuvwxyz'') c of
        Some l \<Rightarrow> l
      | None \<Rightarrow> c)"

definition lower :: "string \<Rightarrow> string" where
  "lower s = map lower_char s"

definition split_first :: "char \<Rightarrow> string \<Rightarrow> string \<times> string" where
  "split_first sep s = (takeWhile (\<lambda>c. c \<noteq> sep) s, tl (dropWhile (\<lambda>c. c \<noteq> sep) s))"

subsection \<open>Relinking, deletion, source paths\<close>

text \<open>
  The loops that set \<open>node.image\<close> of every \<open>TEX_IMAGE\<close> node that refers to one image to
  another image. The loop of \<open>remap_textures\<close> visits the materials that have a node tree,
  the loop of \<open>remove_duplicate_images\<close> the materials with \<open>use_nodes\<close>.
\<close>

definition relink_node :: "ref \<Rightarrow> ref \<Rightarrow> node \<Rightarrow> node" where
  "relink_node old new nd =
     (if nd_type nd = TEX_IMAGE \<and> nd_image nd = Some old then nd\<lparr>nd_image := Some new\<rparr> else nd)"

definition relink :: "(material \<Rightarrow> bool) \<Rightarrow> ref \<Rightarrow> ref \<Rightarrow> scene \<Rightarrow> scene" where
  "relink visited old new sc =
     sc\<lparr>materials :=
          map (\<lambda>m. if visited m
                    then m\<lparr>node_tree := map_option (map (relink_node old new)) (node_tree m)\<rparr>
                    else m)
            (materials sc)\<rparr>"

text \<open>
  \<open>bpy.data.images.remove(image)\<close> with the host's defaults deletes the image and clears
  the references to it.
\<close>

definition remove_image :: "ref \<Rightarrow> scene \<Rightarrow> scene" where
  "remove_image r sc =
     sc\<lparr>images := filter (\<lambda>i. img_id i \<noteq> r) (images sc),
        materials :=
          map (\<lambda>m. m\<lparr>node_tree :=
                        map_option (map (\<lambda>nd. if nd_image nd = Some r
                                               then nd\<lparr>nd_image := None\<rparr> else nd))
                          (node_tree m)\<rparr>)
            (materials sc)\<rparr>"

text \<open>
  The reports of a deletion loop: the block was removed, or it still has users and is
  left in place. Both deletion loops over images have the same body; an image is queued at
  most once, so the queued image is always found.
\<close>

datatype block_report = Removed string | StillUsed string nat

definition image_delete_step :: "scene \<times> block_report list \<Rightarrow> ref \<Rightarrow> scene \<times> block_report list" where
  "image_delete_step st r =
     (case st of (sc, reports) \<Rightarrow>
        (case image_of sc r of
           None \<Rightarrow> st
         | Some img \<Rightarrow>
             if image_users sc img = 0
             then (remove_image r sc, reports @ [Removed (img_name img)])
             else (sc, reports @ [StillUsed (img_name img) (image_users sc img)])))"

text \<open>
  \<open>rename_image\<close> stores a name as it is given. \<open>remap_textures\<close> assigns a name only after
  \<open>bpy.data.images.get\<close> has found no image of that name, and the host stores a name that no
  other image has as requested.
\<close>

definition rename_image :: "ref \<Rightarrow> string \<Rightarrow> scene \<Rightarrow> scene" where
  "rename_image r nm sc =
     sc\<lparr>images := map (\<lambda>i. if img_id i = r then i\<lparr>img_name := nm\<rparr> else i) (images sc)\<rparr>"

definition rename_image_paths :: "scene \<Rightarrow> scene" where
  "rename_image_paths sc =
     sc\<lparr>images := map (\<lambda>img. if packed_file img then img\<lparr>filepath := img_name img\<rparr> else img)
                     (images sc)\<rparr>"

subsection \<open>remap\_textures\<close>

text \<open>
  The mapping file: a line without a comma is skipped; otherwise the part before the first
  comma is the new name and the rest the original name. A later line overrides an earlier
  one with the same key.
\<close>

definition parse_line :: "string \<Rightarrow> (string \<times> string) option" where
  "parse_line l =
     (let line = strip l
      in if line = [] \<or> CHR '','' \<notin> set line then None
         else (let (new_name, original_blender_name) = split_first (CHR '','') line;
                   normalized_original_name = lower (remove_spaces (strip original_blender_name))
               in Some (normalized_original_name, strip new_name)))"

definition read_map :: "string list \<Rightarrow> (string \<rightharpoonup> string)" where
  "read_map ls =
     foldl (\<lambda>image_map l. case parse_line l of
                             None \<Rightarrow> image_map
                           | Some (k, v) \<Rightarrow> image_map(k \<mapsto> v))
       Map.empty ls"

text \<open>
  The body of the first loop, for the image with identity \<open>r\<close>; the loop visits the images
  of the collection as enumerated when it starts. The state is the scene and the list
  \<open>images_to_remove\<close>.
\<close>

definition remap_step :: "(string \<rightharpoonup> string) \<Rightarrow> scene \<times> ref list \<Rightarrow> ref \<Rightarrow> scene \<times> ref list" where
  "remap_step image_map st r =
     (case st of (sc, images_to_remove) \<Rightarrow>
        (case image_of sc r of
           None \<Rightarrow> st
         | Some img \<Rightarrow>
             (case image_map (lower (remove_spaces (img_name img))) of
                None \<Rightarrow> st
              | Some new_desired_name \<Rightarrow>
                  (case find (\<lambda>i. img_name i = new_desired_name) (images sc) of
                     Some target_image \<Rightarrow>
                       if img_id img = img_id target_image then st
                       else (relink (\<lambda>mat. node_tree mat \<noteq> None) r (img_id target_image) sc,
                             images_to_remove @ [r])
                   | None \<Rightarrow> (rename_image r new_desired_name sc, images_to_remove)))))"

text \<open>
  The routine. The argument is the content of \<open>texture_map.txt\<close> as a list of lines, or
  \<open>None\<close> when the file does not exist or cannot be read: the routine then returns at once.
\<close>

definition remap_textures :: "string list option \<Rightarrow> scene \<Rightarrow> scene \<times> block_report list" where
  "remap_textures file sc =
     (case file of
        None \<Rightarrow> (sc, [])
      | Some ls \<Rightarrow>
          (let (sc1, images_to_remove) =
                 foldl (remap_step (read_map ls)) (sc, []) (map img_id (images sc));
               (sc2, reports) = foldl image_delete_step (sc1, []) images_to_remove
           in (rename_image_paths sc2, reports)))"

subsection \<open>clean\_image\_names\<close>

text \<open>
  The pattern \<open>(\.[a-zA-Z0-9]{2,4})\.(\d{3})$\<close> matches a name that ends in a dot and three
  digits, preceded by an extension of a dot and two to four letters or digits; the cleaned
  name is the name without the last four characters.
\<close>

definition clean_name :: "string \<Rightarrow> string option" where
  "clean_name nm =
     (let r = rev nm
      in if 4 \<le> length r \<and> list_all is_digit (take 3 r) \<and> r ! 3 = CHR ''.'' then
           (let ext = takeWhile is_alnum (drop 4 r); rest = drop (4 + length ext) r
            in if 2 \<le> length ext \<and> length ext \<le> 4 \<and> rest \<noteq> [] \<and> hd rest = CHR ''.''
               then Some (rev (drop 4 r)) else None)
         else None)"

text \<open>
  The body of the loop, for the image with identity \<open>r\<close>; the loop visits the images of the
  collection as enumerated when it starts. The name is assigned without a look at the
  other images, so the host stores the name \<open>id_name\<close> makes of the cleaned name and the
  names of the other images (a parameter, as for the materials).
\<close>

definition clean_image :: "(string list \<Rightarrow> string \<Rightarrow> string) \<Rightarrow> scene \<Rightarrow> ref \<Rightarrow> scene" where
  "clean_image id_name sc r =
     (case image_of sc r of
        None \<Rightarrow> sc
      | Some img \<Rightarrow>
          if \<not> packed_file img \<and> img_source img = FILE then sc
          else if img_source img = GENERATED then sc
          else case clean_name (img_name img) of
                 None \<Rightarrow> sc
               | Some cleaned_name \<Rightarrow>
                   rename_image r
                     (id_name (map img_name (filter (\<lambda>i. img_id i \<noteq> r) (images sc))) cleaned_name)
                     sc)"

definition clean_image_names :: "(string list \<Rightarrow> string \<Rightarrow> string) \<Rightarrow> scene \<Rightarrow> scene" where
  "clean_image_names id_name sc = foldl (clean_image id_name) sc (map img_id (images sc))"

subsection \<open>remove\_duplicate\_images\<close>

text \<open>
  \<open>get_image_hash\<close> is the MD5 digest of the pixel buffer, or nothing for an image without
  pixels. The digest function is a parameter \<open>md5\<close> of the model. \<open>image_hashes\<close> is a
  dictionary of lists that keeps the order in which the keys were inserted.
\<close>

definition get_image_hash :: "(real list \<Rightarrow> string) \<Rightarrow> image \<Rightarrow> string option" where
  "get_image_hash md5 img = (if pixels img = [] then None else Some (md5 (pixels img)))"

fun group_add :: "'k \<Rightarrow> 'v \<Rightarrow> ('k \<times> 'v list) list \<Rightarrow> ('k \<times> 'v list) list" where
  "group_add k v [] = [(k, [v])]"
| "group_add k v ((k', vs) # rest) =
     (if k = k' then (k', vs @ [v]) # rest else (k', vs) # group_add k v rest)"

definition hash_step ::
  "(real list \<Rightarrow> string) \<Rightarrow> (string \<times> image list) list \<Rightarrow> image \<Rightarrow> (string \<times> image list) list" where
  "hash_step md5 image_hashes img =
     (if \<not> packed_file img \<and> img_source img = FILE then image_hashes
      else if img_source img = GENERATED then image_hashes
      else case get_image_hash md5 img of
             None \<Rightarrow> image_hashes
           | Some img_hash \<Rightarrow>
               if img_hash = [] then image_hashes else group_add img_hash img image_hashes)"

definition image_groups :: "(real list \<Rightarrow> string) \<Rightarrow> scene \<Rightarrow> (string \<times> image list) list" where
  "image_groups md5 sc = foldl (hash_step md5) [] (images sc)"

text \<open>
  The second loop: in every group of more than one image the first is the original; the
  texture nodes that refer to another image of the group are relinked to it and that
  image is queued. The state is the scene and the list \<open>images_to_delete\<close>.
\<close>

definition relink_step :: "image \<Rightarrow> scene \<times> ref list \<Rightarrow> image \<Rightarrow> scene \<times> ref list" where
  "relink_step original_image st duplicate_image =
     (case st of (sc, images_to_delete) \<Rightarrow>
        (relink use_nodes (img_id duplicate_image) (img_id original_image) sc,
         images_to_delete @ [img_id duplicate_image]))"

definition group_step :: "scene \<times> ref list \<Rightarrow> string \<times> image list \<Rightarrow> scene \<times> ref list" where
  "group_step st g =
     (case snd g of
        original_image # duplicate_image # others \<Rightarrow>
          foldl (relink_step original_image) st (duplicate_image # others)
      | _ \<Rightarrow> st)"

definition remove_duplicate_images ::
  "(string list \<Rightarrow> string \<Rightarrow> string) \<Rightarrow> (real list \<Rightarrow> string) \<Rightarrow> scene \<Rightarrow>
     scene \<times> block_report list" where
  "remove_duplicate_images id_name md5 sc =
     (let image_hashes = image_groups md5 sc;
          duplicates_found = list_ex (\<lambda>g. 1 < length (snd g)) image_hashes
      in if \<not> duplicates_found then (sc, [])
         else (let (sc1, images_to_delete) = foldl group_step (sc, []) image_hashes;
                   (sc2, reports) = foldl image_delete_step (sc1, []) images_to_delete
               in (rename_image_paths (clean_image_names id_name sc2), reports)))"

subsection \<open>Auxiliary notions for the image routines\<close>

text \<open>
  What the routines never write before their last step: the identity, the packed flag and
  the source path of every image.
\<close>

definition image_paths :: "scene \<Rightarrow> (ref \<times> bool \<times> string) list" where
  "image_paths sc = map (\<lambda>i. (img_id i, packed_file i, filepath i)) (images sc)"

text \<open>Example scenes: an image with the given fields and one pixel value, no extra users.\<close>

definition packed_image :: "ref \<Rightarrow> string \<Rightarrow> real \<Rightarrow> string \<Rightarrow> image" where
  "packed_image r nm px path =
     \<lparr>img_id = r, img_name = nm, packed_file = True, img_source = FILE, pixels = [px],
      filepath = path, img_extra_users = 0\<rparr>"

definition image_scene :: "image list \<Rightarrow> material list \<Rightarrow> scene" where
  "image_scene imgs mats =
     \<lparr>images = imgs, materials = mats, meshes = [], objects = [], active_object = None\<rparr>"

definition tex_material :: "ref \<Rightarrow> string \<Rightarrow> ref list \<Rightarrow> material" where
  "tex_material r nm imgs =
     \<lparr>mat_id = r, mat_name = nm, use_nodes = True,
      node_tree = Some (map (\<lambda>i. \<lparr>nd_type = TEX_IMAGE, nd_image = Some i\<rparr>) imgs),
      mat_extra_users = 0\<rparr>"

text \<open>
  A digest function for concrete runs, and a scene with two packed images of the same
  pixel content (the second one used by a material) and a third, unrelated packed image.
\<close>

definition md5_example :: "real list \<Rightarrow> string" where
  "md5_example ps = (if ps = [1] then ''c4ca'' else ''c81e'')"

definition dup_images :: scene where
  "dup_images =
     image_scene
       [packed_image 1 ''T_1.png'' 1 ''//textures/T_1.png'',
        packed_image 2 ''T_1.png.001'' 1 ''//textures/copy.png'',
        packed_image 3 ''other.png'' 2 ''//textures/other.png'']
       [tex_material 1 ''Material'' [2]]"

text \<open>
  The key under which the first loop of \<open>remove_duplicate_images\<close> files an image: the key
  of the group that the loop body makes of the image alone, if it makes one.
\<close>

definition image_key :: "(real list \<Rightarrow> string) \<Rightarrow> image \<Rightarrow> string option" where
  "image_key md5 img = (case hash_step md5 [] img of [] \<Rightarrow> None | (h, imgs) # rest \<Rightarrow> Some h)"

text \<open>
  The dictionary \<open>image_hashes\<close> after the first loop has visited the images \<open>xs\<close>: the keys are
  distinct, and the list under a key holds the visited images with that key, in order.
\<close>

definition groups_inv :: "(real list \<Rightarrow> string) \<Rightarrow> image list \<Rightarrow> (string \<times> image list) list \<Rightarrow> bool" where
  "groups_inv md5 xs gs \<longleftrightarrow>
     distinct (map fst gs) \<and>
     (\<forall>h. map_of gs h =
            (if filter (\<lambda>i. image_key md5 i = Some h) xs = [] then None
             else Some (filter (\<lambda>i. image_key md5 i = Some h) xs)))"

section \<open>Duplicate materials (material\_utils.py)\<close>

subsection \<open>remove\_duplicate\_materials, phase 1\<close>

text \<open>
  The materials linked to an image: those with \<open>use_nodes\<close> that have a \<open>TEX_IMAGE\<close> node
  referring to the image, in the order of \<open>bpy.data.materials\<close>.
\<close>

definition linked_materials :: "scene \<Rightarrow> ref \<Rightarrow> material list" where
  "linked_materials sc r =
     filter (\<lambda>material. use_nodes material \<and>
                list_ex (\<lambda>nd. nd_type nd = TEX_IMAGE \<and> nd_image nd = Some r) (nodes_of material))
       (materials sc)"

text \<open>
  The loop over the slots of every mesh object: a slot that holds the duplicate gets the
  first material. The slots of an object are the material list of its mesh.
\<close>

definition used_by_mesh_object :: "scene \<Rightarrow> ref \<Rightarrow> bool" where
  "used_by_mesh_object sc r =
     list_ex (\<lambda>obj. obj_type obj = MESH \<and> obj_data obj = Some r) (objects sc)"

definition replace_material :: "ref \<Rightarrow> ref \<Rightarrow> scene \<Rightarrow> scene" where
  "replace_material duplicate_material first_material sc =
     sc\<lparr>meshes :=
          map (\<lambda>me. if used_by_mesh_object sc (mesh_id me)
                     then me\<lparr>mesh_materials :=
                               map (\<lambda>slot. if slot = Some duplicate_material
                                            then Some first_material else slot)
                                 (mesh_materials me)\<rparr>
                     else me)
            (meshes sc)\<rparr>"

text \<open>
  Assignment to a key of a Python dictionary: the value of an existing key is replaced in
  place, a new key is appended.
\<close>

fun dict_set :: "'k \<Rightarrow> 'v \<Rightarrow> ('k \<times> 'v) list \<Rightarrow> ('k \<times> 'v) list" where
  "dict_set k v [] = [(k, v)]"
| "dict_set k v ((k', v') # rest) =
     (if k = k' then (k', v) # rest else (k', v') # dict_set k v rest)"

text \<open>
  The body of the loop over the images. The state is the scene, the dictionary
  \<open>image_material_map\<close> (from the name of an image to its first linked material) and the
  list \<open>materials_to_delete\<close>.
\<close>

definition material_step ::
  "scene \<times> (string \<times> ref) list \<times> ref list \<Rightarrow> image \<Rightarrow> scene \<times> (string \<times> ref) list \<times> ref list" where
  "material_step st img =
     (case st of (sc, image_material_map, materials_to_delete) \<Rightarrow>
        (case linked_materials sc (img_id img) of
           [] \<Rightarrow> st
         | first_material # duplicates \<Rightarrow>
             (foldl (\<lambda>s duplicate_material.
                       replace_material (mat_id duplicate_material) (mat_id first_material) s)
                sc duplicates,
              dict_set (img_name img) (mat_id first_material) image_material_map,
              materials_to_delete @ map mat_id duplicates)))"

subsection \<open>Phase 2\<close>

text \<open>
  \<open>bpy.data.materials.remove(mat)\<close> with the host's defaults deletes the material and
  clears the slots that hold it. The loop runs over \<open>set(materials_to_delete)\<close>, each queued
  material once; the order of a Python set is not fixed, and the model takes the order of
  the list.
\<close>

definition remove_material :: "ref \<Rightarrow> scene \<Rightarrow> scene" where
  "remove_material r sc =
     sc\<lparr>materials := filter (\<lambda>m. mat_id m \<noteq> r) (materials sc),
        meshes := map (\<lambda>me. me\<lparr>mesh_materials :=
                                   map (\<lambda>slot. if slot = Some r then None else slot)
                                     (mesh_materials me)\<rparr>)
                    (meshes sc)\<rparr>"

definition material_delete_step ::
  "scene \<times> block_report list \<Rightarrow> ref \<Rightarrow> scene \<times> block_report list" where
  "material_delete_step st r =
     (case st of (sc, reports) \<Rightarrow>
        (case material_of sc r of
           None \<Rightarrow> st
         | Some mat \<Rightarrow>
             if material_users sc mat = 0
             then (remove_material r sc, reports @ [Removed (mat_name mat)])
             else (sc, reports @ [StillUsed (mat_name mat) (material_users sc mat)])))"

subsection \<open>Phase 3\<close>

text \<open>
  \<open>os.path.splitext\<close> (the POSIX variant): the extension starts at the last dot, provided
  that dot comes after the last slash and some character between the slash and the dot
  is not a dot.
\<close>

definition rfind :: "char \<Rightarrow> string \<Rightarrow> int" where
  "rfind c p =
     (if c \<in> set p then int (length p) - 1 - int (length (takeWhile (\<lambda>x. x \<noteq> c) (rev p)))
      else - 1)"

definition splitext :: "string \<Rightarrow> string \<times> string" where
  "splitext p =
     (let sepIndex = rfind (CHR ''/'') p; dotIndex = rfind (CHR ''.'') p
      in if sepIndex < dotIndex \<and>
            list_ex (\<lambda>c. c \<noteq> CHR ''.'')
              (take (nat (dotIndex - sepIndex - 1)) (drop (nat (sepIndex + 1)) p))
         then (take (nat dotIndex) p, drop (nat dotIndex) p)
         else (p, []))"

text \<open>
  The name a material gets from the name of an image: \<open>M_<digits>\<close> when the name without
  its extension is \<open>T_<digits>\<close>, and none otherwise (the \<open>ValueError\<close> of the unpacking and
  the failed test both skip the image).
\<close>

definition material_name_for :: "string \<Rightarrow> string option" where
  "material_name_for image_name =
     (let base_image_name = fst (splitext image_name)
      in if CHR ''_'' \<notin> set base_image_name then None
         else (let (prefix, number) = split_first (CHR ''_'') base_image_name
               in if prefix = ''T'' \<and> number \<noteq> [] \<and> list_all is_digit number
                  then Some (''M_'' @ number) else None))"

text \<open>
  The assignment \<open>material.name = new_material_name\<close>: the host stores the name \<open>id_name\<close>
  makes of the requested name and the names of the other materials.
\<close>

definition rename_material ::
  "(string list \<Rightarrow> string \<Rightarrow> string) \<Rightarrow> ref \<Rightarrow> string \<Rightarrow> scene \<Rightarrow> scene" where
  "rename_material id_name r nm sc =
     sc\<lparr>materials :=
          map (\<lambda>m. if mat_id m = r
                    then m\<lparr>mat_name :=
                            id_name (map mat_name (filter (\<lambda>m'. mat_id m' \<noteq> r) (materials sc))) nm\<rparr>
                    else m)
            (materials sc)\<rparr>"

text \<open>
  The body of the loop over \<open>image_material_map.items()\<close>. A material that phase 2 has
  deleted cannot be read any more: the access raises, the handler of the loop catches it,
  and the loop goes on.
\<close>

definition rename_step :: "(string list \<Rightarrow> string \<Rightarrow> string) \<Rightarrow> scene \<Rightarrow> string \<times> ref \<Rightarrow> scene" where
  "rename_step id_name sc item =
     (case item of (image_name, r) \<Rightarrow>
        (case material_name_for image_name of
           None \<Rightarrow> sc
         | Some new_material_name \<Rightarrow>
             (case material_of sc r of
                None \<Rightarrow> sc
              | Some material \<Rightarrow>
                  if mat_name material \<noteq> new_material_name
                  then rename_material id_name r new_material_name sc else sc)))"

subsection \<open>The routine\<close>

definition material_phase1 :: "scene \<Rightarrow> scene \<times> (string \<times> ref) list \<times> ref list" where
  "material_phase1 sc = foldl material_step (sc, [], []) (images sc)"

definition remove_duplicate_materials ::
  "(string list \<Rightarrow> string \<Rightarrow> string) \<Rightarrow> scene \<Rightarrow> scene \<times> block_report list" where
  "remove_duplicate_materials id_name sc =
     (let (sc1, image_material_map, materials_to_delete) = material_phase1 sc;
          (sc2, reports) = foldl material_delete_step (sc1, []) (remdups materials_to_delete)
      in (foldl (rename_step id_name) sc2 image_material_map, reports))"

subsection \<open>Example scenes for the material routine\<close>

text \<open>
  A mesh with the given slots and no geometry, and a scene of images, materials and
  meshes in which every mesh is the data of one mesh object.
\<close>

definition bare_mesh :: "ref \<Rightarrow> ref option list \<Rightarrow> mesh" where
  "bare_mesh r slots =
     \<lparr>mesh_id = r, mesh_name = ''Mesh'', vertices = [], edges = [], polygons = [],
      mesh_materials = slots, mesh_extra_users = 0\<rparr>"

definition material_scene :: "image list \<Rightarrow> material list \<Rightarrow> mesh list \<Rightarrow> scene" where
  "material_scene imgs mats mes =
     \<lparr>images = imgs, materials = mats, meshes = mes,
      objects = map (\<lambda>me. \<lparr>obj_name = ''Object'', obj_type = MESH, obj_data = Some (mesh_id me)\<rparr>) mes,
      active_object = None\<rparr>"

text \<open>
  Three materials that share two images in a chain: \<open>m1\<close> uses the first image, \<open>m2\<close> both,
  \<open>m3\<close> the second; each material fills the slot of one mesh.
\<close>

definition chain :: "material list \<Rightarrow> ref option list \<Rightarrow> scene" where
  "chain mats slots =
     material_scene
       [packed_image 1 ''wall.png'' 1 ''wall.png'', packed_image 2 ''roof.png'' 2 ''roof.png'']
       mats (map (\<lambda>(r, s). bare_mesh r [s]) (zip [1, 2, 3] slots))"

text \<open>Two images named \<open>T_1.png\<close> and \<open>T_2.png\<close>, with the given materials and no meshes.\<close>

definition numbered_images :: "material list \<Rightarrow> scene" where
  "numbered_images mats =
     material_scene
       [packed_image 1 ''T_1.png'' 1 ''T_1.png'', packed_image 2 ''T_2.png'' 2 ''T_2.png'']
       mats []"

text \<open>
  The name of the material \<open>r\<close> after the loop of phase 3 over the given items, when its
  name before the loop is \<open>nm\<close>.
\<close>

definition name_after :: "(string \<times> ref) list \<Rightarrow> ref \<Rightarrow> string \<Rightarrow> string" where
  "name_after items r nm =
     foldl (\<lambda>n item. if snd item = r
                      then (case material_name_for (fst item) of Some new \<Rightarrow> new | None \<Rightarrow> n)
                      else n)
       nm items"

definition first_linked :: "scene \<Rightarrow> image \<Rightarrow> ref option" where
  "first_linked sc img =
     (case linked_materials sc (img_id img) of [] \<Rightarrow> None | first # rest \<Rightarrow> Some (mat_id first))"


text \<open>
  A choice of names for concrete runs: a free name is kept, a name in use gets the suffix
  \<open>.001\<close>. The host does the same as long as the suffixed name is free.
\<close>

definition suffix_name :: "string list \<Rightarrow> string \<Rightarrow> string" where
  "suffix_name used nm = (if nm \<in> set used then nm @ ''.001'' else nm)"

text \<open>
  The items of \<open>image_material_map\<close> after phase 1, for images with distinct names: one item
  per image with a linked material, in the order of the images.
\<close>

definition linked_items :: "scene \<Rightarrow> image list \<Rightarrow> (string \<times> ref) list" where
  "linked_items sc imgs =
     concat (map (\<lambda>i. case first_linked sc i of None \<Rightarrow> [] | Some r \<Rightarrow> [(img_name i, r)]) imgs)"

text \<open>
  No renaming of phase 3 asks for a name that another material has: when the loop comes to
  the item of an image, the name made from the image is held by no material of \<open>ms\<close> but
  the material of the item, and no item gives that name to another material.
  \<open>no_name_clash\<close> is the condition on the scene at the start that ensures this.
\<close>

definition clash_free :: "material list \<Rightarrow> (string \<times> ref) list \<Rightarrow> bool" where
  "clash_free ms items \<longleftrightarrow>
     (\<forall>item\<in>set items.
        case material_name_for (fst item) of
          None \<Rightarrow> True
        | Some new \<Rightarrow>
            (\<forall>m\<in>set ms. mat_name m = new \<longrightarrow> mat_id m = snd item) \<and>
            (\<forall>item'\<in>set items. material_name_for (fst item') = Some new \<longrightarrow> snd item' = snd item))"

definition no_name_clash :: "scene \<Rightarrow> bool" where
  "no_name_clash sc \<longleftrightarrow>
     (\<forall>i\<in>set (images sc).
        case first_linked sc i of
          None \<Rightarrow> True
        | Some r \<Rightarrow>
            (case material_name_for (img_name i) of
               None \<Rightarrow> True
             | Some new \<Rightarrow>
                 (\<forall>m\<in>set (materials sc). mat_name m = new \<longrightarrow> mat_id m = r) \<and>
                 (\<forall>j\<in>set (images sc).
                    material_name_for (img_name j) = Some new \<longrightarrow>
                      first_linked sc j = None \<or> first_linked sc j = Some r)))"
section \<open>References and deleted blocks\<close>

text \<open>
  The references of a scene, by kind: the data of the objects, the slots of the meshes, the
  images of the nodes. And the blocks of one scene that are gone in a later scene.
\<close>

definition mesh_refs :: "scene \<Rightarrow> ref option list" where
  "mesh_refs sc = map obj_data (objects sc)"

definition material_refs :: "scene \<Rightarrow> ref option list" where
  "material_refs sc = concat (map mesh_materials (meshes sc))"

definition image_refs :: "scene \<Rightarrow> ref option list" where
  "image_refs sc = concat (map (\<lambda>m. map nd_image (nodes_of m)) (materials sc))"

definition deleted_meshes :: "scene \<Rightarrow> scene \<Rightarrow> ref list" where
  "deleted_meshes sc sc' =
     filter (\<lambda>r. r \<notin> set (map mesh_id (meshes sc'))) (map mesh_id (meshes sc))"

definition deleted_materials :: "scene \<Rightarrow> scene \<Rightarrow> ref list" where
  "deleted_materials sc sc' =
     filter (\<lambda>r. r \<notin> set (map mat_id (materials sc'))) (map mat_id (materials sc))"

definition deleted_images :: "scene \<Rightarrow> scene \<Rightarrow> ref list" where
  "deleted_images sc sc' =
     filter (\<lambda>r. r \<notin> set (map img_id (images sc'))) (map img_id (images sc))"

text \<open>
  No reference of the list \<open>refs\<close> points at a block of \<open>A\<close> that is not among \<open>ids\<close>.
\<close>

definition no_dangling :: "ref set \<Rightarrow> ref set \<Rightarrow> ref option list \<Rightarrow> bool" where
  "no_dangling A ids refs \<longleftrightarrow>
     (\<forall>x\<in>set refs. case x of None \<Rightarrow> True | Some r \<Rightarrow> r \<in> A \<longrightarrow> r \<in> ids)"

section \<open>The deletion loops, step by step\<close>

text \<open>
  For each pass, the list the deletion loop runs over and the state (the scene and the
  reports) in which the loop reaches its \<open>k\<close>-th entry.
\<close>

definition mesh_deletions :: "scene \<Rightarrow> string list" where
  "mesh_deletions sc = mesh_names_to_delete (mesh_first_pass sc)"

definition mesh_deletion_state :: "scene \<Rightarrow> nat \<Rightarrow> scene \<times> mesh_report list" where
  "mesh_deletion_state sc k =
     foldl mesh_delete_step (ml_scene (mesh_first_pass sc), ml_reports (mesh_first_pass sc))
       (take k (mesh_deletions sc))"

definition image_deletions :: "(real list \<Rightarrow> string) \<Rightarrow> scene \<Rightarrow> ref list" where
  "image_deletions md5 sc = snd (foldl group_step (sc, []) (image_groups md5 sc))"

definition image_deletion_state ::
  "(real list \<Rightarrow> string) \<Rightarrow> scene \<Rightarrow> nat \<Rightarrow> scene \<times> block_report list" where
  "image_deletion_state md5 sc k =
     foldl image_delete_step (fst (foldl group_step (sc, []) (image_groups md5 sc)), [])
       (take k (image_deletions md5 sc))"

definition material_deletions :: "scene \<Rightarrow> ref list" where
  "material_deletions sc = remdups (snd (snd (material_phase1 sc)))"

definition material_deletion_state :: "scene \<Rightarrow> nat \<Rightarrow> scene \<times> block_report list" where
  "material_deletion_state sc k =
     foldl material_delete_step (fst (material_phase1 sc), []) (take k (material_deletions sc))"


section \<open>Proofs: material slots\<close>

subsection \<open>The loop invariant\<close>

lemma slot_invI:
  assumes "\<And>key k. mp key = Some k \<Longrightarrow> i \<le> k \<and> last_at mats k \<and> mats ! k = Some (fst key)"
    and "\<And>j mat. i \<le> j \<Longrightarrow> j < length mats \<Longrightarrow> mats ! j = Some mat \<Longrightarrow> mp (key_of sc mat) \<noteq> None"
    and "sorted_wrt (>) rs"
    and "\<And>r. r \<in> set rs \<Longrightarrow> i \<le> r \<and> r < length mats \<and> \<not> last_at mats r"
    and "list_all2 (poly_ok mats i) orig polys"
  shows "slot_inv sc mats orig i (mp, rs, polys)"
  unfolding slot_inv_def using assms by auto

lemma slot_inv_init: "slot_inv sc mats orig (length mats) (Map.empty, [], orig)"
  by (rule slot_invI) (auto simp: poly_ok_def list_all2_conv_all_nth)

lemma poly_ok_None:
  assumes "poly_ok mats (Suc i) po pc" and "mats ! i = None"
  shows "poly_ok mats i po pc"
proof (cases "material_index po = i")
  case True
  with assms show ?thesis by (simp add: poly_ok_def)
next
  case False
  then have "(i \<le> material_index po) = (Suc i \<le> material_index po)" by arith
  with assms(1) show ?thesis by (simp add: poly_ok_def)
qed

lemma poly_ok_first:
  assumes "poly_ok mats (Suc i) po pc" and "last_at mats i"
  shows "poly_ok mats i po pc"
proof (cases "material_index po = i")
  case True
  with assms show ?thesis by (simp add: poly_ok_def last_at_def)
next
  case False
  then have "(i \<le> material_index po) = (Suc i \<le> material_index po)" by arith
  with assms(1) show ?thesis by (simp add: poly_ok_def)
qed

lemma poly_ok_dup:
  assumes "poly_ok mats (Suc i) po pc" and "last_at mats k" and "i < k" and "mats ! k = mats ! i"
  shows "poly_ok mats i po (if material_index pc = i then pc\<lparr>material_index := k\<rparr> else pc)"
proof (cases "material_index po = i")
  case True
  with assms(1) have "material_index pc = i" by (simp add: poly_ok_def)
  with True assms show ?thesis by (simp add: poly_ok_def last_at_def)
next
  case False
  then have eq: "(i \<le> material_index po) = (Suc i \<le> material_index po)" by arith
  from False assms(1) have "material_index pc \<noteq> i"
    by (auto simp: poly_ok_def split: if_splits)
  with assms(1) eq show ?thesis by (simp add: poly_ok_def)
qed

lemma slot_inv_step:
  assumes inv: "slot_inv sc mats orig (Suc i) st" and i: "i < length mats"
  shows "slot_inv sc mats orig i (slot_body sc mats i st)"
proof -
  obtain mp rs polys where st: "st = (mp, rs, polys)" by (cases st) auto
  from inv st have a: "\<And>key k. mp key = Some k \<Longrightarrow> Suc i \<le> k \<and> last_at mats k \<and> mats ! k = Some (fst key)"
    and b: "\<And>j mat. Suc i \<le> j \<Longrightarrow> j < length mats \<Longrightarrow> mats ! j = Some mat \<Longrightarrow> mp (key_of sc mat) \<noteq> None"
    and c: "sorted_wrt (>) rs"
    and d: "\<And>r. r \<in> set rs \<Longrightarrow> Suc i \<le> r \<and> r < length mats \<and> \<not> last_at mats r"
    and e: "list_all2 (poly_ok mats (Suc i)) orig polys"
    by (auto simp: slot_inv_def)
  have a': "i \<le> k \<and> last_at mats k \<and> mats ! k = Some (fst key)" if "mp key = Some k" for key k
    using a[OF that] by simp
  have d': "i \<le> r \<and> r < length mats \<and> \<not> last_at mats r" if "r \<in> set rs" for r
    using d[OF that] by simp
  have lt: "i < r" if "r \<in> set rs" for r using d[OF that] by simp
  have c': "sorted_wrt (>) (rs @ [i])"
    using c lt by (simp add: sorted_wrt_append)
  show ?thesis
  proof (cases "mats ! i")
    case None
    have nl: "\<not> last_at mats i" using None by (simp add: last_at_def)
    have body: "slot_body sc mats i st = (mp, rs @ [i], polys)"
      using None st by (simp add: slot_body_def)
    show ?thesis unfolding body
    proof (rule slot_invI)
      fix j mat assume j: "i \<le> j" "j < length mats" "mats ! j = Some mat"
      with None have "j \<noteq> i" by auto
      with j have "Suc i \<le> j" by simp
      then show "mp (key_of sc mat) \<noteq> None" using b j by blast
    next
      fix r assume "r \<in> set (rs @ [i])"
      then show "i \<le> r \<and> r < length mats \<and> \<not> last_at mats r"
        using d' nl i by auto
    next
      show "list_all2 (poly_ok mats i) orig polys"
        using e None by (auto elim!: list_all2_mono intro: poly_ok_None)
    qed (use a' c' in auto)
  next
    case (Some mat)
    show ?thesis
    proof (cases "mp (key_of sc mat)")
      case None
      have body: "slot_body sc mats i st = (mp(key_of sc mat \<mapsto> i), rs, polys)"
        using Some None st by (simp add: slot_body_def key_of_def Let_def)
      have la: "last_at mats i"
        unfolding last_at_def
      proof (intro conjI allI impI)
        fix j assume j: "i < j \<and> j < length mats"
        show "mats ! j \<noteq> mats ! i"
        proof
          assume "mats ! j = mats ! i"
          then have "mats ! j = Some mat" using Some by simp
          moreover have "Suc i \<le> j" using j by simp
          ultimately have "mp (key_of sc mat) \<noteq> None" using b j by blast
          with None show False by simp
        qed
      qed (use i Some in auto)
      show ?thesis unfolding body
      proof (rule slot_invI)
        fix key k assume "(mp(key_of sc mat \<mapsto> i)) key = Some k"
        then show "i \<le> k \<and> last_at mats k \<and> mats ! k = Some (fst key)"
          using a' la Some by (auto simp: key_of_def split: if_splits)
      next
        fix j m assume j: "i \<le> j" "j < length mats" "mats ! j = Some m"
        show "(mp(key_of sc mat \<mapsto> i)) (key_of sc m) \<noteq> None"
        proof (cases "j = i")
          case True
          with j Some show ?thesis by simp
        next
          case False
          with j have "Suc i \<le> j" by simp
          then have "mp (key_of sc m) \<noteq> None" using b j by blast
          then show ?thesis by simp
        qed
      next
        show "list_all2 (poly_ok mats i) orig polys"
          using e la by (auto elim!: list_all2_mono intro: poly_ok_first)
      qed (use c d' in auto)
    next
      case Some2: (Some k)
      have body: "slot_body sc mats i st =
        (mp, rs @ [i], map (\<lambda>poly. if material_index poly = i then poly\<lparr>material_index := k\<rparr> else poly) polys)"
        using Some Some2 st by (simp add: slot_body_def key_of_def Let_def)
      from a[OF Some2] have k: "i < k" "last_at mats k" "mats ! k = mats ! i"
        using Some by (auto simp: key_of_def)
      then have nl: "\<not> last_at mats i" using i by (auto simp: last_at_def)
      show ?thesis unfolding body
      proof (rule slot_invI)
        fix j m assume j: "i \<le> j" "j < length mats" "mats ! j = Some m"
        show "mp (key_of sc m) \<noteq> None"
        proof (cases "j = i")
          case True
          with j Some Some2 show ?thesis by simp
        next
          case False
          with j have "Suc i \<le> j" by simp
          then show ?thesis using b j by blast
        qed
      next
        fix r assume "r \<in> set (rs @ [i])"
        then show "i \<le> r \<and> r < length mats \<and> \<not> last_at mats r"
          using d' nl i by auto
      next
        show "list_all2 (poly_ok mats i) orig
           (map (\<lambda>poly. if material_index poly = i then poly\<lparr>material_index := k\<rparr> else poly) polys)"
          unfolding list_all2_map2
          using e by (rule list_all2_mono) (rule poly_ok_dup[OF _ k(2) k(1) k(3)])
      qed (use a' c' in auto)
    qed
  qed
qed

lemma slot_inv_loop:
  "slot_inv sc mats orig h st \<Longrightarrow> h \<le> length mats \<Longrightarrow> lo \<le> h \<Longrightarrow>
   slot_inv sc mats orig lo (slot_loop sc mats lo h st)"
proof (induction h arbitrary: st)
  case 0
  then show ?case by simp
next
  case (Suc h)
  show ?case
  proof (cases "lo \<le> h")
    case True
    have "slot_inv sc mats orig h (slot_body sc mats h st)"
      using Suc.prems by (intro slot_inv_step) auto
    then show ?thesis using Suc True by simp
  next
    case False
    with Suc.prems have "lo = Suc h" by simp
    with Suc.prems show ?thesis by simp
  qed
qed

subsection \<open>The removals\<close>

lemma pop_material_kept:
  assumes r: "r < length (mesh_materials me)"
  shows "\<exists>me'. pop_material r me = Inr me' \<and> poly_kept [r] me me' \<and>
     mesh_id me' = mesh_id me \<and>
     length (mesh_materials me') = length (mesh_materials me) - 1 \<and>
     (\<forall>q<length (polygons me). material_index (polygons me ! q) \<noteq> r \<longrightarrow>
        (\<forall>r'<r. material_index (polygons me' ! q) = r' \<longrightarrow> material_index (polygons me ! q) = r'))"
  using r
  by (auto simp: pop_material_def poly_kept_def nth_append min_def)

lemma pop_all_kept:
  "sorted_wrt (>) rs \<Longrightarrow> \<forall>r\<in>set rs. r < length (mesh_materials me) \<Longrightarrow>
   \<exists>me'. pop_all rs me = Inr me' \<and> poly_kept rs me me' \<and> mesh_id me' = mesh_id me \<and>
     length (mesh_materials me') = length (mesh_materials me) - length rs"
proof (induction rs arbitrary: me)
  case Nil
  then show ?case by (simp add: poly_kept_def)
next
  case (Cons r rs)
  from Cons.prems have r: "r < length (mesh_materials me)" by simp
  from pop_material_kept[OF r] obtain me1 where
    me1: "pop_material r me = Inr me1" "poly_kept [r] me me1" "mesh_id me1 = mesh_id me"
      "length (mesh_materials me1) = length (mesh_materials me) - 1"
    and bk: "\<And>q r'. q < length (polygons me) \<Longrightarrow> material_index (polygons me ! q) \<noteq> r \<Longrightarrow>
        r' < r \<Longrightarrow> material_index (polygons me1 ! q) = r' \<Longrightarrow> material_index (polygons me ! q) = r'"
    by blast
  have lt: "\<And>r'. r' \<in> set rs \<Longrightarrow> r' < r" using Cons.prems(1) by auto
  have "\<forall>r'\<in>set rs. r' < length (mesh_materials me1)"
    using lt r me1(4) by fastforce
  moreover have "sorted_wrt (>) rs" using Cons.prems(1) by simp
  ultimately obtain me' where
    me': "pop_all rs me1 = Inr me'" "poly_kept rs me1 me'" "mesh_id me' = mesh_id me1"
      "length (mesh_materials me') = length (mesh_materials me1) - length rs"
    using Cons.IH by blast
  have "poly_kept (r # rs) me me'"
    unfolding poly_kept_def
  proof (intro conjI allI impI)
    show "length (polygons me') = length (polygons me)"
      using me1(2) me'(2) by (simp add: poly_kept_def)
  next
    fix q assume q: "q < length (polygons me)"
    then show "poly_vertices (polygons me' ! q) = poly_vertices (polygons me ! q)"
      using me1(2) me'(2) by (simp add: poly_kept_def)
  next
    fix q assume q: "q < length (polygons me)"
      and p: "material_index (polygons me ! q) < length (mesh_materials me) \<and>
              material_index (polygons me ! q) \<notin> set (r # rs)"
    let ?p = "material_index (polygons me ! q)" and ?p1 = "material_index (polygons me1 ! q)"
    from p have pr: "?p \<noteq> r" "?p \<notin> set rs" by auto
    from me1(2) q p have s1: "?p1 < length (mesh_materials me1)"
      "mesh_materials me1 ! ?p1 = mesh_materials me ! ?p"
      by (auto simp: poly_kept_def)
    have "?p1 \<notin> set rs"
    proof
      assume in_rs: "?p1 \<in> set rs"
      then have "?p1 < r" by (rule lt)
      then have "?p = ?p1" using bk[OF q pr(1)] by simp
      with in_rs pr(2) show False by simp
    qed
    moreover have q1: "q < length (polygons me1)" using me1(2) q by (simp add: poly_kept_def)
    ultimately have "material_index (polygons me' ! q) < length (mesh_materials me') \<and>
        mesh_materials me' ! material_index (polygons me' ! q) = mesh_materials me1 ! ?p1"
      using me'(2) s1(1) by (simp add: poly_kept_def)
    with s1(2) show "material_index (polygons me' ! q) < length (mesh_materials me')"
      and "mesh_materials me' ! material_index (polygons me' ! q) = mesh_materials me ! ?p"
      by simp_all
  qed
  then show ?case using me1 me' by simp
qed

lemma rev_sort_desc: "sorted_wrt (>) (rs::nat list) \<Longrightarrow> rev (sort rs) = rs"
proof -
  assume a: "sorted_wrt (>) rs"
  then have "sorted_wrt (<) (rev rs)" by (simp add: sorted_wrt_rev)
  then have "sorted (rev rs)" by (simp add: strict_sorted_imp_sorted)
  then have "sort rs = rev rs"
    by (intro properties_for_sort) simp_all
  then show ?thesis by simp
qed

lemma mesh_of_put_mesh:
  "mesh_of sc r = Some me \<Longrightarrow> mesh_id me' = mesh_id me \<Longrightarrow> mesh_of (put_mesh me' sc) r = Some me'"
proof -
  assume a: "mesh_of sc r = Some me" and b: "mesh_id me' = mesh_id me"
  have r: "mesh_id me = r" using a by (auto simp: mesh_of_def dest: find_Some_iff[THEN iffD1])
  have "find (\<lambda>m. mesh_id m = r) xs = Some me \<Longrightarrow>
        find (\<lambda>m. mesh_id m = r) (map (\<lambda>m. if mesh_id m = r then me' else m) xs) = Some me'" for xs
    using b r by (induction xs) (auto split: if_splits)
  then show ?thesis using a b r by (simp add: mesh_of_def put_mesh_def)
qed

lemma compact_mesh_kept:
  assumes q: "q < length (polygons me)"
    and p: "material_index (polygons me ! q) < length (mesh_materials me)"
    and m: "mesh_materials me ! material_index (polygons me ! q) = Some mat"
  shows "\<exists>me'. compact_mesh sc me = Inr me' \<and> mesh_id me' = mesh_id me \<and>
     length (polygons me') = length (polygons me) \<and>
     poly_vertices (polygons me' ! q) = poly_vertices (polygons me ! q) \<and>
     length (mesh_materials me') \<le> length (mesh_materials me) \<and>
     material_index (polygons me' ! q) < length (mesh_materials me') \<and>
     mesh_materials me' ! material_index (polygons me' ! q) = Some mat"
proof -
  let ?mats = "mesh_materials me"
  obtain mp rs polys where st: "slots_after_loop sc me = (mp, rs, polys)"
    by (cases "slots_after_loop sc me") auto
  have inv: "slot_inv sc ?mats (polygons me) 0 (mp, rs, polys)"
    using slot_inv_loop[OF slot_inv_init, of ?mats 0 sc "polygons me"] st
    by (simp add: slots_after_loop_def)
  then have srt: "sorted_wrt (>) rs"
    and rs: "\<And>r. r \<in> set rs \<Longrightarrow> r < length ?mats \<and> \<not> last_at ?mats r"
    and la: "list_all2 (poly_ok ?mats 0) (polygons me) polys"
    by (auto simp: slot_inv_def)
  let ?me0 = "me\<lparr>polygons := polys\<rparr>"
  have len: "length polys = length (polygons me)" using la by (simp add: list_all2_lengthD)
  have ok: "poly_ok ?mats 0 (polygons me ! q) (polys ! q)"
    using la q by (simp add: list_all2_conv_all_nth)
  let ?p' = "material_index (polys ! q)"
  from ok p m have p': "last_at ?mats ?p'" "?mats ! ?p' = Some mat"
    and pv: "poly_vertices (polys ! q) = poly_vertices (polygons me ! q)"
    by (simp_all add: poly_ok_def)
  then have notin: "?p' \<notin> set rs" using rs by blast
  have "\<forall>r\<in>set rs. r < length (mesh_materials ?me0)" using rs by simp
  from pop_all_kept[OF srt this] obtain me' where
    me': "pop_all rs ?me0 = Inr me'" "poly_kept rs ?me0 me'" "mesh_id me' = mesh_id ?me0"
      "length (mesh_materials me') = length (mesh_materials ?me0) - length rs"
    by blast
  have cm: "compact_mesh sc me = Inr me'"
    using st me'(1) rev_sort_desc[OF srt] by (simp add: compact_mesh_def)
  have "material_index (polygons me' ! q) < length (mesh_materials me') \<and>
        mesh_materials me' ! material_index (polygons me' ! q) = ?mats ! ?p'"
    using me'(2) q len notin p'(1) by (simp add: poly_kept_def last_at_def)
  moreover have "length (polygons me') = length (polygons me)"
    "poly_vertices (polygons me' ! q) = poly_vertices (polygons me ! q)"
    using me'(2) q len pv by (simp_all add: poly_kept_def)
  ultimately show ?thesis using cm me'(3,4) p'(2) by simp
qed

subsection \<open>Slot indices after the pass\<close>

text \<open>
  Concrete runs of the routine are evaluated by unfolding these definitions.
\<close>

lemmas slot_run_defs =
  remove_duplicate_material_slots_def active_def mesh_of_def put_mesh_def compact_mesh_def
  slots_after_loop_def slot_body_def pop_material_def slot_scene_def slot_mesh_def
  plain_material_def material_of_def get_first_image_texture_def Let_def

text \<open>
  Claim C1 (as amended). Let the active object be a mesh object. For every polygon of its
  mesh whose \<open>material_index\<close> lies within the slot list before the pass and whose slot
  holds a material, the pass returns without raising, and afterwards the polygon's
  \<open>material_index\<close> lies within the (possibly shortened) slot list and the slot it points
  at holds the same material.
\<close>

theorem slot_index_valid:
  assumes "active sc = Some obj" and "obj_type obj = MESH" and "obj_data obj = Some r"
    and "mesh_of sc r = Some me"
    and "q < length (polygons me)"
    and "material_index (polygons me ! q) < length (mesh_materials me)"
    and "mesh_materials me ! material_index (polygons me ! q) = Some mat"
  shows "\<exists>sc' me'. remove_duplicate_material_slots sc = Inr sc' \<and> mesh_of sc' r = Some me' \<and>
     length (polygons me') = length (polygons me) \<and>
     length (mesh_materials me') \<le> length (mesh_materials me) \<and>
     material_index (polygons me' ! q) < length (mesh_materials me') \<and>
     mesh_materials me' ! material_index (polygons me' ! q) = Some mat"
proof -
  from compact_mesh_kept[OF assms(5,6,7), of sc] obtain me' where
    me': "compact_mesh sc me = Inr me'" "mesh_id me' = mesh_id me"
      "length (polygons me') = length (polygons me)"
      "length (mesh_materials me') \<le> length (mesh_materials me)"
      "material_index (polygons me' ! q) < length (mesh_materials me')"
      "mesh_materials me' ! material_index (polygons me' ! q) = Some mat"
    by blast
  have "remove_duplicate_material_slots sc = Inr (put_mesh me' sc)"
    using assms(1-4) me'(1) by (simp add: remove_duplicate_material_slots_def)
  moreover have "mesh_of (put_mesh me' sc) r = Some me'"
    using assms(4) me'(2) by (rule mesh_of_put_mesh)
  ultimately show ?thesis using me'(3-6) by blast
qed

text \<open>
  The theorem at the object with slots \<open>[A, null, A, B]\<close> and polygons on slots
  \<open>[0, 1, 2, 3]\<close>, for the polygon on slot 0.
\<close>

theorem slot_index_valid_witness:
  "\<exists>sc' me'.
     remove_duplicate_material_slots (slot_scene [Some 1, None, Some 1, Some 2] [0, 1, 2, 3]) = Inr sc' \<and>
     mesh_of sc' 0 = Some me' \<and>
     length (polygons me') = 4 \<and>
     length (mesh_materials me') \<le> 4 \<and>
     material_index (polygons me' ! 0) < length (mesh_materials me') \<and>
     mesh_materials me' ! material_index (polygons me' ! 0) = Some 1"
proof -
  let ?sc = "slot_scene [Some 1, None, Some 1, Some 2] [0, 1, 2, 3]"
  let ?me = "slot_mesh [Some 1, None, Some 1, Some 2] [0, 1, 2, 3]"
  let ?obj = "\<lparr>obj_name = ''Object'', obj_type = MESH, obj_data = Some 0\<rparr>"
  have h1: "active ?sc = Some ?obj" by (simp add: active_def slot_scene_def)
  have h2: "obj_type ?obj = MESH" by simp
  have h3: "obj_data ?obj = Some 0" by simp
  have h4: "mesh_of ?sc 0 = Some ?me" by (simp add: mesh_of_def slot_scene_def slot_mesh_def)
  have h5: "0 < length (polygons ?me)" by (simp add: slot_mesh_def)
  have h6: "material_index (polygons ?me ! 0) < length (mesh_materials ?me)"
    by (simp add: slot_mesh_def)
  have h7: "mesh_materials ?me ! material_index (polygons ?me ! 0) = Some 1"
    by (simp add: slot_mesh_def)
  show ?thesis
    using slot_index_valid[OF h1 h2 h3 h4 h5 h6 h7] by (simp add: slot_mesh_def numeral_eq_Suc)
qed

text \<open>
  Claim C1 as stated covers every polygon. It fails for a polygon on an empty slot. With
  the single slot \<open>[null]\<close> and a polygon on it, the pass leaves no slot and the polygon
  keeps index 0, which is not within \<open>0 .. n - 1\<close> for \<open>n = 0\<close>. With slots \<open>[null, A]\<close>
  and polygons on slots \<open>[0, 1]\<close>, the polygon of the empty slot ends on the slot of
  \<open>A\<close>, a material its slot never carried.
\<close>

theorem slot_index_valid_counterexample:
  "remove_duplicate_material_slots (slot_scene [None] [0]) = Inr (slot_scene [] [0]) \<and>
   remove_duplicate_material_slots (slot_scene [None, Some 1] [0, 1]) =
     Inr (slot_scene [Some 1] [0, 0])"
  by (simp add: slot_run_defs numeral_2_eq_2)

subsection \<open>The target of a duplicate slot\<close>

text \<open>
  Claim C2 (as amended). When the loop reaches slot \<open>i\<close> and finds the key of its material
  already stored with index \<open>k\<close>, then \<open>k\<close> is strictly greater than \<open>i\<close>: it is the highest
  index in the slot list that holds this material (the loop walks from the last slot to
  the first, so the first slot seen is the last one in storage order). The body rewrites
  the polygons on slot \<open>i\<close> to \<open>k\<close> and queues \<open>i\<close> for removal. For the object with slots
  \<open>[A, null, A, B]\<close> and polygons on \<open>[0, 1, 2, 3]\<close> the pass ends with slots \<open>[A, B]\<close> and
  polygon indices \<open>[0, 0, 0, 1]\<close>; the polygon of the removed empty slot is renumbered by
  the host's removal.
\<close>

theorem duplicate_slot_target:
  assumes "i < length mats"
    and "slot_loop sc mats (Suc i) (length mats) (Map.empty, [], polys) = (mp, rs, ps)"
    and "mats ! i = Some mat"
    and "mp (mat, get_first_image_texture (material_of sc mat)) = Some k"
  shows "i < k \<and> k < length mats \<and> mats ! k = Some mat \<and>
     (\<forall>j. k < j \<and> j < length mats \<longrightarrow> mats ! j \<noteq> Some mat) \<and>
     slot_body sc mats i (mp, rs, ps) =
       (mp, rs @ [i],
        map (\<lambda>poly. if material_index poly = i then poly\<lparr>material_index := k\<rparr> else poly) ps) \<and>
     remove_duplicate_material_slots (slot_scene [Some 1, None, Some 1, Some 2] [0, 1, 2, 3]) =
       Inr (slot_scene [Some 1, Some 2] [0, 0, 0, 1])"
proof -
  have "slot_inv sc mats polys (Suc i) (mp, rs, ps)"
    using slot_inv_loop[OF slot_inv_init, of mats "Suc i" sc polys] assms(1,2) by simp
  then have "Suc i \<le> k \<and> last_at mats k \<and> mats ! k = Some mat"
    using assms(4) by (auto simp: slot_inv_def)
  then have "i < k" "k < length mats" "mats ! k = Some mat"
    "\<forall>j. k < j \<and> j < length mats \<longrightarrow> mats ! j \<noteq> Some mat"
    by (auto simp: last_at_def)
  moreover have "slot_body sc mats i (mp, rs, ps) =
       (mp, rs @ [i],
        map (\<lambda>poly. if material_index poly = i then poly\<lparr>material_index := k\<rparr> else poly) ps)"
    using assms(3,4) by (simp add: slot_body_def)
  moreover have "remove_duplicate_material_slots
      (slot_scene [Some 1, None, Some 1, Some 2] [0, 1, 2, 3]) =
       Inr (slot_scene [Some 1, Some 2] [0, 0, 0, 1])"
    by (simp add: slot_run_defs numeral_eq_Suc)
  ultimately show ?thesis by simp
qed

text \<open>The theorem at slot 0 of the object with slots \<open>[A, null, A, B]\<close>.\<close>

theorem duplicate_slot_target_witness:
  "(0::nat) < 2 \<and> (2::nat) < length [Some (1::nat), None, Some 1, Some 2] \<and>
   [Some (1::nat), None, Some 1, Some 2] ! 2 = Some 1 \<and>
   remove_duplicate_material_slots (slot_scene [Some 1, None, Some 1, Some 2] [0, 1, 2, 3]) =
     Inr (slot_scene [Some 1, Some 2] [0, 0, 0, 1])"
proof -
  let ?sc = "slot_scene [Some 1, None, Some 1, Some 2] [0, 1, 2, 3]"
  let ?mats = "[Some (1::nat), None, Some 1, Some 2]"
  let ?st = "slot_loop ?sc ?mats (Suc 0) (length ?mats)
               (Map.empty, [], polygons (slot_mesh ?mats [0, 1, 2, 3]))"
  have h1: "0 < length ?mats" by simp
  have h2: "?st = (fst ?st, fst (snd ?st), snd (snd ?st))" by simp
  have h3: "?mats ! 0 = Some 1" by simp
  have h4: "fst ?st (1, get_first_image_texture (material_of ?sc 1)) = Some 2"
    by (simp add: slot_run_defs numeral_eq_Suc)
  show ?thesis
    using duplicate_slot_target[OF h1 h2 h3 h4] by simp
qed

text \<open>
  Claim C2 as stated has \<open>k\<close> strictly below the current index. On the object with slots
  \<open>[A, null, A, B]\<close> the loop reaches slot 0 with index 2 stored for \<open>A\<close>, and 2 is not
  below 0; the loop then leaves the polygon indices \<open>[2, 1, 2, 3]\<close>, not \<open>[0, 1, 0, 3]\<close>.
\<close>

theorem duplicate_slot_target_counterexample:
  "fst (slot_loop (slot_scene [Some 1, None, Some 1, Some 2] [0, 1, 2, 3])
          [Some 1, None, Some 1, Some 2] 1 4
          (Map.empty, [], polygons (slot_mesh [Some 1, None, Some 1, Some 2] [0, 1, 2, 3])))
     (1, None) = Some 2 \<and>
   \<not> (2::nat) < 0 \<and>
   map material_index
     (snd (snd (slots_after_loop (slot_scene [Some 1, None, Some 1, Some 2] [0, 1, 2, 3])
                  (slot_mesh [Some 1, None, Some 1, Some 2] [0, 1, 2, 3])))) = [2, 1, 2, 3]"
  by (simp add: slot_run_defs numeral_eq_Suc)

section \<open>Proofs: the first loop of the mesh routine\<close>

text \<open>
  The first loop keeps the invariant \<open>mesh_inv\<close> when the meshes have distinct identities:
  a lookup in the dictionary gives the first mesh in use whose key is equal to the given one; the objects
  are the objects of the start, repointed; the queued names are those of the meshes that
  were in use, are not the first of their key and have no user left after repointing.
\<close>

lemma float_eq_sym: "float_eq a b \<Longrightarrow> float_eq b a"
  by (auto simp: float_eq_def)

lemma float_eq_trans: "float_eq a b \<Longrightarrow> float_eq b c \<Longrightarrow> float_eq a c"
  by (auto simp: float_eq_def)

lemma co_eq_sym: "co_eq c c' \<Longrightarrow> co_eq c' c"
  by (auto simp: co_eq_def float_eq_sym split: prod.splits)

lemma co_eq_trans: "co_eq c c' \<Longrightarrow> co_eq c' c'' \<Longrightarrow> co_eq c c''"
  unfolding co_eq_def by (auto split: prod.splits intro: float_eq_trans)

lemma key_eq_sym: "key_eq g g' \<Longrightarrow> key_eq g' g"
proof -
  assume a: "key_eq g g'"
  obtain vs es ps where g: "g = (vs, es, ps)" by (cases g)
  obtain vs' es' ps' where g': "g' = (vs', es', ps')" by (cases g')
  from a have "list_all2 co_eq vs vs'" by (simp add: key_eq_def g g')
  then have "list_all2 co_eq vs' vs"
    by (auto simp: list_all2_conv_all_nth intro: co_eq_sym)
  with a show ?thesis by (simp add: key_eq_def g g')
qed

lemma key_eq_trans: "key_eq g g' \<Longrightarrow> key_eq g' g'' \<Longrightarrow> key_eq g g''"
proof -
  assume a: "key_eq g g'" and b: "key_eq g' g''"
  obtain vs es ps where g: "g = (vs, es, ps)" by (cases g)
  obtain vs' es' ps' where g': "g' = (vs', es', ps')" by (cases g')
  obtain vs'' es'' ps'' where g'': "g'' = (vs'', es'', ps'')" by (cases g'')
  from a b have "list_all2 co_eq vs vs'" "list_all2 co_eq vs' vs''"
    by (simp_all add: key_eq_def g g' g'')
  then have "list_all2 co_eq vs vs''"
    by (rule list_all2_trans[rotated]) (rule co_eq_trans)
  with a b show ?thesis by (simp add: key_eq_def g g' g'')
qed

lemma source_of_in:
  "source_of sc ms g = Some src \<Longrightarrow>
     src \<in> set ms \<and> mesh_users sc src \<noteq> 0 \<and> key_eq (geom_hash src) g"
  by (auto simp: source_of_def find_Some_iff)

lemma source_of_snoc:
  "source_of sc (ms @ [x]) g =
     (case source_of sc ms g of
        Some src \<Rightarrow> Some src
      | None \<Rightarrow> if mesh_users sc x \<noteq> 0 \<and> key_eq (geom_hash x) g then Some x else None)"
  unfolding source_of_def by (induction ms) auto

lemma source_of_used:
  "m \<in> set ms \<Longrightarrow> mesh_users sc m \<noteq> 0 \<Longrightarrow> key_eq (geom_hash m) g \<Longrightarrow>
     source_of sc ms g \<noteq> None"
  by (auto simp: source_of_def find_None_iff)

text \<open>A mesh visited later does not change what an earlier mesh in use is mapped to.\<close>

lemma source_of_snoc_old:
  assumes "m \<in> set ms" and "mesh_users sc m \<noteq> 0"
  shows "source_of sc (ms @ [x]) (geom_hash m) = source_of sc ms (geom_hash m)"
proof (cases "source_of sc ms (geom_hash m)")
  case (Some src)
  then show ?thesis by (simp add: source_of_snoc)
next
  case None
  have "\<not> key_eq (geom_hash x) (geom_hash m)"
  proof
    assume k: "key_eq (geom_hash x) (geom_hash m)"
    have "key_eq (geom_hash m) (geom_hash m)"
      by (rule key_eq_trans[OF key_eq_sym[OF k] k])
    from source_of_used[OF assms this] None show False by simp
  qed
  then show ?thesis by (simp add: source_of_snoc None)
qed

lemma repoint_fresh:
  assumes "x \<notin> mesh_id ` set ms"
  shows "repoint sc ms r = x \<longleftrightarrow> r = x"
proof (cases "find (\<lambda>m. mesh_id m = r \<and> mesh_users sc m \<noteq> 0) ms")
  case None
  then show ?thesis by (simp add: repoint_def)
next
  case (Some m)
  then have m: "m \<in> set ms" "mesh_id m = r" "mesh_users sc m \<noteq> 0"
    by (auto simp: find_Some_iff)
  then have rx: "r \<noteq> x" using assms by auto
  show ?thesis
  proof (cases "source_of sc ms (geom_hash m)")
    case None
    with Some rx show ?thesis by (simp add: repoint_def)
  next
    case src: (Some src)
    then have "src \<in> set ms" using source_of_in by blast
    then have "mesh_id src \<noteq> x" using assms by auto
    with Some src rx show ?thesis by (simp add: repoint_def)
  qed
qed

lemma users_repointed:
  assumes "mesh_id x \<notin> mesh_id ` set ms"
  shows "mesh_users (sc\<lparr>objects := repointed sc ms\<rparr>) x = mesh_users sc x"
proof -
  have "(map_option (repoint sc ms) d = Some (mesh_id x)) = (d = Some (mesh_id x))" for d
    using repoint_fresh[OF assms, of sc] by (cases d) auto
  then show ?thesis
    by (simp add: mesh_users_def repointed_def filter_map comp_def)
qed


lemma find_snoc:
  "find P (xs @ [x]) = (case find P xs of Some y \<Rightarrow> Some y | None \<Rightarrow> if P x then Some x else None)"
  by (induction xs) auto

lemma repoint_snoc:
  assumes "mesh_id x \<notin> mesh_id ` set ms"
  shows "repoint sc (ms @ [x]) r =
           (if r = mesh_id x \<and> mesh_users sc x \<noteq> 0
            then (case source_of sc ms (geom_hash x) of Some src \<Rightarrow> mesh_id src | None \<Rightarrow> r)
            else repoint sc ms r)"
proof (cases "find (\<lambda>m. mesh_id m = r \<and> mesh_users sc m \<noteq> 0) ms")
  case None
  show ?thesis
  proof (cases "r = mesh_id x \<and> mesh_users sc x \<noteq> 0")
    case True
    then show ?thesis using None
      by (simp add: repoint_def find_snoc source_of_snoc split: option.splits)
  next
    case False
    then have "find (\<lambda>m. mesh_id m = r \<and> mesh_users sc m \<noteq> 0) (ms @ [x]) = None"
      using None by (auto simp: find_snoc)
    then show ?thesis using None False by (auto simp: repoint_def)
  qed
next
  case (Some m)
  then have m: "m \<in> set ms" "mesh_id m = r" "mesh_users sc m \<noteq> 0"
    by (auto simp: find_Some_iff)
  have rx: "r \<noteq> mesh_id x" using assms m(1,2) by (metis imageI)
  have f: "find (\<lambda>m. mesh_id m = r \<and> mesh_users sc m \<noteq> 0) (ms @ [x]) = Some m"
    using Some by (simp add: find_snoc)
  have s: "source_of sc (ms @ [x]) (geom_hash m) = source_of sc ms (geom_hash m)"
    by (rule source_of_snoc_old[OF m(1) m(3)])
  show ?thesis unfolding repoint_def f Some using rx by (simp add: s)
qed

lemma queued_snoc_old:
  assumes "m \<in> set ms"
  shows "queued sc (ms @ [x]) m = queued sc ms m"
proof (cases "mesh_users sc m = 0")
  case True
  then show ?thesis by (simp add: queued_def)
next
  case False
  show ?thesis unfolding queued_def source_of_snoc_old[OF assms False] by (rule refl)
qed

lemma filter_queued_snoc:
  "filter (queued sc (ms @ [x])) (ms @ [x]) =
     filter (queued sc ms) ms @ (if queued sc (ms @ [x]) x then [x] else [])"
proof -
  have "filter (queued sc (ms @ [x])) ms = filter (queued sc ms) ms"
    by (rule filter_cong) (simp_all add: queued_snoc_old)
  then show ?thesis by simp
qed

lemma repointed_Nil: "sc\<lparr>objects := repointed sc []\<rparr> = sc"
proof -
  have "map_option (repoint sc []) d = d" for d
    by (cases d) (simp_all add: repoint_def)
  then have "repointed sc [] = objects sc"
    by (simp add: repointed_def)
  then show ?thesis by simp
qed

lemma mesh_inv_init:
  "mesh_inv sc []
     \<lparr>ml_scene = sc, mesh_data_blocks = [], mesh_names_to_delete = [],
      duplicates_found = 0, ml_reports = []\<rparr>"
  unfolding mesh_inv_def by (simp add: repointed_Nil source_of_def dict_get_def)

lemma repointed_unused:
  assumes "mesh_id x \<notin> mesh_id ` set ms"
    and "mesh_users sc x = 0 \<or> source_of sc ms (geom_hash x) = None"
  shows "repointed sc (ms @ [x]) = repointed sc ms"
proof -
  have "repoint sc (ms @ [x]) r = repoint sc ms r" for r
  proof (cases "r = mesh_id x \<and> mesh_users sc x \<noteq> 0")
    case True
    then have "source_of sc ms (geom_hash x) = None" using assms(2) by auto
    moreover have "repoint sc ms r = r" using repoint_fresh[OF assms(1), of sc r] True by simp
    ultimately show ?thesis unfolding repoint_snoc[OF assms(1)] using True by simp
  next
    case False
    then show ?thesis unfolding repoint_snoc[OF assms(1)] by (simp only: if_False)
  qed
  then have "repoint sc (ms @ [x]) = repoint sc ms" by (rule ext)
  then show ?thesis by (simp add: repointed_def)
qed

lemma repointed_dup:
  assumes "mesh_id x \<notin> mesh_id ` set ms"
    and "mesh_users sc x \<noteq> 0" and "source_of sc ms (geom_hash x) = Some src"
  shows "objects (replace_mesh x src (sc\<lparr>objects := repointed sc ms\<rparr>)) = repointed sc (ms @ [x])"
proof -
  have "(if map_option (repoint sc ms) d = Some (mesh_id x) then Some (mesh_id src)
         else map_option (repoint sc ms) d) = map_option (repoint sc (ms @ [x])) d" for d
  proof (cases d)
    case None
    then show ?thesis by simp
  next
    case (Some r)
    show ?thesis using repoint_fresh[OF assms(1), of sc r] assms(2,3)
      by (simp add: Some repoint_snoc[OF assms(1)])
  qed
  note key = this
  have "(if obj_data (obj\<lparr>obj_data := map_option (repoint sc ms) (obj_data obj)\<rparr>) = Some (mesh_id x)
         then (obj\<lparr>obj_data := map_option (repoint sc ms) (obj_data obj)\<rparr>)\<lparr>obj_data := Some (mesh_id src)\<rparr>
         else obj\<lparr>obj_data := map_option (repoint sc ms) (obj_data obj)\<rparr>) =
        obj\<lparr>obj_data := map_option (repoint sc (ms @ [x])) (obj_data obj)\<rparr>" for obj :: object
  proof (cases "map_option (repoint sc ms) (obj_data obj) = Some (mesh_id x)")
    case True
    have e: "map_option (repoint sc (ms @ [x])) (obj_data obj) = Some (mesh_id src)"
      using key[of "obj_data obj"] unfolding True by simp
    show ?thesis by (simp add: True e)
  next
    case False
    have e: "map_option (repoint sc (ms @ [x])) (obj_data obj) = map_option (repoint sc ms) (obj_data obj)"
      using key[of "obj_data obj"] False by (simp only: if_False)
    show ?thesis unfolding e using False by (simp del: map_option_eq_Some)
  qed
  then show ?thesis
    by (simp add: replace_mesh_def repointed_def comp_def)
qed

lemma replace_mesh_objects:
  "replace_mesh x src s = s\<lparr>objects := objects (replace_mesh x src s)\<rparr>"
  by (simp add: replace_mesh_def)

lemma users_after_dup:
  assumes fresh: "mesh_id x \<notin> mesh_id ` set ms"
    and used: "mesh_users sc x \<noteq> 0" and src: "source_of sc ms (geom_hash x) = Some src"
  shows "mesh_users (sc\<lparr>objects := repointed sc (ms @ [x])\<rparr>) x = mesh_extra_users x"
proof -
  have "src \<in> set ms" using source_of_in[OF src] by simp
  then have ne: "mesh_id src \<noteq> mesh_id x" using fresh by (metis imageI)
  have "repoint sc (ms @ [x]) r \<noteq> mesh_id x" for r
  proof (cases "r = mesh_id x")
    case True
    then show ?thesis unfolding repoint_snoc[OF fresh] using used src ne by simp
  next
    case False
    then have "repoint sc ms r \<noteq> mesh_id x" using repoint_fresh[OF fresh, of sc r] by simp
    then show ?thesis unfolding repoint_snoc[OF fresh] using False by simp
  qed
  then have "map_option (repoint sc (ms @ [x])) d \<noteq> Some (mesh_id x)" for d
    by (cases d) auto
  then show ?thesis
    by (simp add: mesh_users_def repointed_def filter_map comp_def del: map_option_eq_Some)
qed

lemma dict_get_snoc:
  "dict_get (d @ [(k, v)]) g =
     (case dict_get d g of Some s \<Rightarrow> Some s | None \<Rightarrow> if key_eq k g then Some v else None)"
  by (simp add: dict_get_def find_snoc split: option.splits)

lemma mesh_inv_step:
  assumes inv: "mesh_inv sc ms st" and fresh: "mesh_id x \<notin> mesh_id ` set ms"
  shows "mesh_inv sc (ms @ [x]) (mesh_step st x)"
proof -
  have sc_st: "ml_scene st = sc\<lparr>objects := repointed sc ms\<rparr>"
    and blocks: "dict_get (mesh_data_blocks st) g = source_of sc ms g"
    and names: "mesh_names_to_delete st = map mesh_name (filter (queued sc ms) ms)" for g
    using inv unfolding mesh_inv_def by blast+
  have users: "mesh_users (ml_scene st) x = mesh_users sc x"
    unfolding sc_st by (rule users_repointed[OF fresh])
  show ?thesis
  proof (cases "mesh_users sc x = 0")
    case True
    have step: "mesh_step st x = st" by (simp add: mesh_step_def users True)
    have r: "repointed sc (ms @ [x]) = repointed sc ms"
      by (rule repointed_unused[OF fresh]) (simp add: True)
    have s: "source_of sc (ms @ [x]) = source_of sc ms"
      by (rule ext) (simp add: source_of_snoc True split: option.splits)
    have q: "\<not> queued sc (ms @ [x]) x" by (simp add: queued_def True)
    show ?thesis unfolding step mesh_inv_def filter_queued_snoc r s
      by (simp add: sc_st blocks names q)
  next
    case False
    show ?thesis
    proof (cases "source_of sc ms (geom_hash x)")
      case None
      have step: "mesh_step st x =
          st\<lparr>mesh_data_blocks := mesh_data_blocks st @ [(geom_hash x, x)]\<rparr>"
        using False by (simp add: mesh_step_def users blocks None)
      have r: "repointed sc (ms @ [x]) = repointed sc ms"
        by (rule repointed_unused[OF fresh]) (simp add: None)
      have s: "dict_get (mesh_data_blocks st @ [(geom_hash x, x)]) g = source_of sc (ms @ [x]) g" for g
        using False by (simp add: dict_get_snoc blocks source_of_snoc)
      have "source_of sc (ms @ [x]) (geom_hash x) = None \<or>
            source_of sc (ms @ [x]) (geom_hash x) = Some x"
        using None by (simp add: source_of_snoc)
      then have q: "\<not> queued sc (ms @ [x]) x" by (auto simp: queued_def)
      show ?thesis unfolding step mesh_inv_def filter_queued_snoc r
        by (simp add: sc_st s names q)
    next
      case (Some src)
      have src: "src \<in> set ms" "mesh_users sc src \<noteq> 0" "key_eq (geom_hash src) (geom_hash x)"
        using source_of_in[OF Some] by simp_all
      then have ne: "src \<noteq> x" using fresh by auto
      define sc' where "sc' = replace_mesh x src (ml_scene st)"
      have sc': "sc' = sc\<lparr>objects := repointed sc (ms @ [x])\<rparr>"
        unfolding sc'_def sc_st
        by (subst replace_mesh_objects) (simp add: repointed_dup[OF fresh False Some])
      have u': "mesh_users sc' x = mesh_extra_users x"
        unfolding sc' by (rule users_after_dup[OF fresh False Some])
      have s: "source_of sc (ms @ [x]) g = source_of sc ms g" for g
      proof (cases "source_of sc ms g")
        case old: (Some m)
        then show ?thesis by (simp add: source_of_snoc)
      next
        case old: None
        have "\<not> key_eq (geom_hash x) g"
        proof
          assume "key_eq (geom_hash x) g"
          with src(3) have "key_eq (geom_hash src) g" by (rule key_eq_trans)
          from source_of_used[OF src(1,2) this] old show False by simp
        qed
        then show ?thesis by (simp add: source_of_snoc old)
      qed
      have q: "queued sc (ms @ [x]) x \<longleftrightarrow> mesh_extra_users x = 0"
        using False ne by (simp add: queued_def s Some)
      have step1: "ml_scene (mesh_step st x) = sc'"
        using False by (simp add: mesh_step_def users blocks Some sc'_def Let_def)
      have step2: "mesh_data_blocks (mesh_step st x) = mesh_data_blocks st"
        using False by (simp add: mesh_step_def users blocks Some Let_def)
      have step3: "mesh_names_to_delete (mesh_step st x) =
                     (if mesh_users sc' x = 0 then mesh_names_to_delete st @ [mesh_name x]
                      else mesh_names_to_delete st)"
        using False by (simp add: mesh_step_def users blocks Some sc'_def Let_def)
      show ?thesis unfolding mesh_inv_def filter_queued_snoc step1 step2 step3 u'
        by (simp add: sc' s blocks names q)
    qed
  qed
qed

lemma mesh_inv_fold:
  assumes "mesh_inv sc seen st" and "distinct (map mesh_id (seen @ ms))"
  shows "mesh_inv sc (seen @ ms) (foldl mesh_step st ms)"
  using assms
proof (induction ms arbitrary: seen st)
  case Nil
  then show ?case by simp
next
  case (Cons x ms)
  have fresh: "mesh_id x \<notin> mesh_id ` set seen" using Cons.prems(2) by auto
  have "mesh_inv sc ((seen @ [x]) @ ms) (foldl mesh_step (mesh_step st x) ms)"
    by (rule Cons.IH[OF mesh_inv_step[OF Cons.prems(1) fresh]]) (use Cons.prems(2) in simp)
  then show ?case by simp
qed

lemma mesh_inv_first_pass:
  assumes "distinct (map mesh_id (meshes sc))"
  shows "mesh_inv sc (meshes sc) (mesh_first_pass sc)"
  unfolding mesh_first_pass_def
  using mesh_inv_fold[OF mesh_inv_init, where ms = "meshes sc" and sc = sc] assms by simp

section \<open>Proofs: duplicate meshes\<close>

text \<open>Concrete runs of the routine are evaluated by unfolding these definitions.\<close>

lemmas mesh_run_defs =
  remove_duplicate_meshes_def mesh_first_pass_def mesh_step_def mesh_users_def geom_hash_def
  dict_get_def key_eq_def co_eq_def float_eq_def
  replace_mesh_def mesh_delete_step_def get_mesh_def remove_mesh_def two_meshes_def
  mesh_pair_def tri_mesh_def float_mesh_def triangle_with_def Let_def

subsection \<open>The geometry key\<close>

lemma co_eq_proj:
  "co_eq c c' \<longleftrightarrow>
     float_eq (fst c) (fst c') \<and> float_eq (fst (snd c)) (fst (snd c')) \<and>
     float_eq (snd (snd c)) (snd (snd c'))"
  by (cases c; cases c') (simp add: co_eq_def)

lemma repoint_used:
  assumes d: "distinct (map mesh_id ms)" and a: "a \<in> set ms" and u: "mesh_users sc a \<noteq> 0"
  shows "repoint sc ms (mesh_id a) =
           (case source_of sc ms (geom_hash a) of Some src \<Rightarrow> mesh_id src | None \<Rightarrow> mesh_id a)"
proof -
  have "find (\<lambda>m. mesh_id m = mesh_id a \<and> mesh_users sc m \<noteq> 0) ms \<noteq> None"
    using a u by (auto simp: find_None_iff)
  then obtain m where m: "find (\<lambda>m. mesh_id m = mesh_id a \<and> mesh_users sc m \<noteq> 0) ms = Some m"
    by auto
  then have "m \<in> set ms" "mesh_id m = mesh_id a" by (auto simp: find_Some_iff)
  with d a have "m = a" by (auto simp: distinct_map inj_on_def)
  with m show ?thesis by (simp add: repoint_def)
qed

lemma grouped_iff:
  assumes d: "distinct (map mesh_id ms)"
    and a: "a \<in> set ms" "mesh_users sc a \<noteq> 0" and b: "b \<in> set ms" "mesh_users sc b \<noteq> 0"
  shows "repoint sc ms (mesh_id a) = repoint sc ms (mesh_id b) \<longleftrightarrow>
           a = b \<or> key_eq (geom_hash a) (geom_hash b)"
proof -
  have inj: "mesh_id m = mesh_id m' \<Longrightarrow> m = m'" if "m \<in> set ms" "m' \<in> set ms" for m m'
    using d that by (auto simp: distinct_map inj_on_def)
  note ra = repoint_used[OF d a] and rb = repoint_used[OF d b]
  show ?thesis
  proof
    assume "a = b \<or> key_eq (geom_hash a) (geom_hash b)"
    then show "repoint sc ms (mesh_id a) = repoint sc ms (mesh_id b)"
    proof
      assume "a = b" then show ?thesis by simp
    next
      assume k: "key_eq (geom_hash a) (geom_hash b)"
      have "key_eq (geom_hash m) (geom_hash a) \<longleftrightarrow> key_eq (geom_hash m) (geom_hash b)" for m
        using k by (blast intro: key_eq_trans key_eq_sym)
      then have s: "source_of sc ms (geom_hash a) = source_of sc ms (geom_hash b)"
        by (simp add: source_of_def)
      have "key_eq (geom_hash a) (geom_hash a)"
        using k by (blast intro: key_eq_trans key_eq_sym)
      from source_of_used[OF a this] obtain src where src: "source_of sc ms (geom_hash a) = Some src"
        by auto
      then have "source_of sc ms (geom_hash b) = Some src" using s by simp
      with src show ?thesis by (simp add: ra rb)
    qed
  next
    assume eq: "repoint sc ms (mesh_id a) = repoint sc ms (mesh_id b)"
    show "a = b \<or> key_eq (geom_hash a) (geom_hash b)"
    proof (cases "source_of sc ms (geom_hash a)")
      case na: None
      show ?thesis
      proof (cases "source_of sc ms (geom_hash b)")
        case None
        with na eq have "mesh_id a = mesh_id b" by (simp add: ra rb)
        then show ?thesis using inj[OF a(1) b(1)] by simp
      next
        case (Some s)
        with na eq have "mesh_id a = mesh_id s" by (simp add: ra rb)
        moreover have "s \<in> set ms" "key_eq (geom_hash s) (geom_hash b)"
          using source_of_in[OF Some] by simp_all
        ultimately show ?thesis using inj[OF a(1), of s] by auto
      qed
    next
      case sa: (Some s)
      have s: "s \<in> set ms" "key_eq (geom_hash s) (geom_hash a)"
        using source_of_in[OF sa] by simp_all
      show ?thesis
      proof (cases "source_of sc ms (geom_hash b)")
        case None
        with sa eq have "mesh_id s = mesh_id b" by (simp add: ra rb)
        then have "s = b" using inj[OF s(1) b(1)] by simp
        with s(2) show ?thesis by (blast intro: key_eq_sym)
      next
        case (Some s')
        have s': "s' \<in> set ms" "key_eq (geom_hash s') (geom_hash b)"
          using source_of_in[OF Some] by simp_all
        from sa Some eq have "mesh_id s = mesh_id s'" by (simp add: ra rb)
        then have "s = s'" using inj[OF s(1) s'(1)] by simp
        with s(2) s'(2) show ?thesis by (blast intro: key_eq_trans key_eq_sym)
      qed
    qed
  qed
qed

text \<open>
  Claim C7 (as amended). The key of a mesh is the tuple of its vertex coordinates, edge
  vertex pairs and polygon vertex lists in storage order, and the dictionary compares keys
  as Python compares tuples of floats. In a scene whose meshes have distinct identities,
  let one object refer to the mesh \<open>a\<close> and another to the mesh \<open>b\<close>. After the first loop
  the two objects refer to the same mesh if and only if \<open>a\<close> and \<open>b\<close> are the same mesh or
  their keys are equal; and the keys are equal if and only if the meshes have as many
  vertices, every coordinate of \<open>a\<close> is equal as a float to the coordinate of \<open>b\<close> at the
  same place, and the lists of edge pairs and of polygon vertex lists are the same. No
  tolerance and no reordering enter: finite coordinates are equal as floats only when
  they are the same number. A NaN is equal to no coordinate, and the two zeros are equal.
\<close>

theorem mesh_fingerprint_exact:
  assumes "distinct (map mesh_id (meshes sc))"
    and "a \<in> set (meshes sc)" and "b \<in> set (meshes sc)"
    and "p < length (objects sc)" and "q < length (objects sc)"
    and "obj_data (objects sc ! p) = Some (mesh_id a)"
    and "obj_data (objects sc ! q) = Some (mesh_id b)"
  shows "(obj_data (objects (ml_scene (mesh_first_pass sc)) ! p) =
          obj_data (objects (ml_scene (mesh_first_pass sc)) ! q) \<longleftrightarrow>
            a = b \<or> key_eq (geom_hash a) (geom_hash b)) \<and>
         (key_eq (geom_hash a) (geom_hash b) \<longleftrightarrow>
            length (vertices a) = length (vertices b) \<and>
            (\<forall>i<length (vertices a).
               float_eq (fst (co (vertices a ! i))) (fst (co (vertices b ! i))) \<and>
               float_eq (fst (snd (co (vertices a ! i)))) (fst (snd (co (vertices b ! i)))) \<and>
               float_eq (snd (snd (co (vertices a ! i)))) (snd (snd (co (vertices b ! i))))) \<and>
            map edge_vertices (edges a) = map edge_vertices (edges b) \<and>
            map poly_vertices (polygons a) = map poly_vertices (polygons b)) \<and>
         (float_eq (Finite u) (Finite v) \<longleftrightarrow> u = v) \<and>
         \<not> float_eq NaN x \<and> \<not> float_eq x NaN \<and> float_eq MinusZero (Finite 0)"
proof (intro conjI)
  have ua: "mesh_users sc a \<noteq> 0"
  proof -
    have "objects sc ! p \<in> set (filter (\<lambda>obj. obj_data obj = Some (mesh_id a)) (objects sc))"
      using assms(4,6) by simp
    then have "filter (\<lambda>obj. obj_data obj = Some (mesh_id a)) (objects sc) \<noteq> []"
      by (metis empty_iff list.set(1))
    then show ?thesis by (simp add: mesh_users_def)
  qed
  have ub: "mesh_users sc b \<noteq> 0"
  proof -
    have "objects sc ! q \<in> set (filter (\<lambda>obj. obj_data obj = Some (mesh_id b)) (objects sc))"
      using assms(5,7) by simp
    then have "filter (\<lambda>obj. obj_data obj = Some (mesh_id b)) (objects sc) \<noteq> []"
      by (metis empty_iff list.set(1))
    then show ?thesis by (simp add: mesh_users_def)
  qed
  have objs: "objects (ml_scene (mesh_first_pass sc)) = repointed sc (meshes sc)"
    using mesh_inv_first_pass[OF assms(1)] by (simp add: mesh_inv_def)
  have "obj_data (objects (ml_scene (mesh_first_pass sc)) ! p) =
          Some (repoint sc (meshes sc) (mesh_id a))"
    unfolding objs using assms(4,6) by (simp add: repointed_def)
  moreover have "obj_data (objects (ml_scene (mesh_first_pass sc)) ! q) =
          Some (repoint sc (meshes sc) (mesh_id b))"
    unfolding objs using assms(5,7) by (simp add: repointed_def)
  ultimately show "obj_data (objects (ml_scene (mesh_first_pass sc)) ! p) =
          obj_data (objects (ml_scene (mesh_first_pass sc)) ! q) \<longleftrightarrow>
            a = b \<or> key_eq (geom_hash a) (geom_hash b)"
    using grouped_iff[OF assms(1) assms(2) ua assms(3) ub] by simp
next
  show "key_eq (geom_hash a) (geom_hash b) \<longleftrightarrow>
            length (vertices a) = length (vertices b) \<and>
            (\<forall>i<length (vertices a).
               float_eq (fst (co (vertices a ! i))) (fst (co (vertices b ! i))) \<and>
               float_eq (fst (snd (co (vertices a ! i)))) (fst (snd (co (vertices b ! i)))) \<and>
               float_eq (snd (snd (co (vertices a ! i)))) (snd (snd (co (vertices b ! i))))) \<and>
            map edge_vertices (edges a) = map edge_vertices (edges b) \<and>
            map poly_vertices (polygons a) = map poly_vertices (polygons b)"
    by (auto simp: key_eq_def geom_hash_def list_all2_conv_all_nth co_eq_proj)
next
  show "float_eq (Finite u) (Finite v) \<longleftrightarrow> u = v" by (simp add: float_eq_def)
  show "\<not> float_eq NaN x" by (simp add: float_eq_def)
  show "\<not> float_eq x NaN" by (simp add: float_eq_def)
  show "float_eq MinusZero (Finite 0)" by (simp add: float_eq_def)
qed

text \<open>The theorem at two triangles with the same arrays and different names.\<close>

theorem mesh_fingerprint_exact_witness:
  "key_eq (geom_hash (tri_mesh 1 ''Cube'' [(0, 0, 0), (1, 0, 0), (0, 1, 0)] 0))
     (geom_hash (tri_mesh 2 ''Cube.001'' [(0, 0, 0), (1, 0, 0), (0, 1, 0)] 0)) \<and>
   obj_data (objects (ml_scene (mesh_first_pass
     (two_meshes [(0, 0, 0), (1, 0, 0), (0, 1, 0)] 0))) ! 0) =
   obj_data (objects (ml_scene (mesh_first_pass
     (two_meshes [(0, 0, 0), (1, 0, 0), (0, 1, 0)] 0))) ! 1)"
proof -
  let ?cs = "[(0, 0, 0), (1, 0, 0), (0, 1, 0)] :: (real \<times> real \<times> real) list"
  let ?m1 = "tri_mesh 1 ''Cube'' ?cs 0" and ?m2 = "tri_mesh 2 ''Cube.001'' ?cs 0"
  let ?sc = "two_meshes ?cs 0"
  have h1: "distinct (map mesh_id (meshes ?sc))"
    by (simp add: two_meshes_def mesh_pair_def tri_mesh_def float_mesh_def)
  have h2: "?m1 \<in> set (meshes ?sc)" and h3: "?m2 \<in> set (meshes ?sc)"
    by (simp_all add: two_meshes_def mesh_pair_def)
  have h4: "0 < length (objects ?sc)" and h5: "1 < length (objects ?sc)"
    by (simp_all add: two_meshes_def mesh_pair_def)
  have h6: "obj_data (objects ?sc ! 0) = Some (mesh_id ?m1)"
    and h7: "obj_data (objects ?sc ! 1) = Some (mesh_id ?m2)"
    by (simp_all add: two_meshes_def mesh_pair_def)
  have g: "key_eq (geom_hash ?m1) (geom_hash ?m2)"
    by (simp add: geom_hash_def tri_mesh_def float_mesh_def key_eq_def co_eq_def float_eq_def)
  from mesh_fingerprint_exact[OF h1 h2 h3 h4 h5 h6 h7] g
  have "obj_data (objects (ml_scene (mesh_first_pass ?sc)) ! 0) =
        obj_data (objects (ml_scene (mesh_first_pass ?sc)) ! 1)"
    by blast
  with g show ?thesis by (rule conjI)
qed

text \<open>
  Claim C7 as stated makes two meshes duplicates exactly when their arrays match. Two
  meshes with the same arrays, one coordinate being a NaN, have keys that are not equal:
  the routine keeps both and changes nothing. Two meshes that differ in the sign of a
  zero have equal keys: the routine repoints the object of the second mesh and deletes
  that mesh.
\<close>

theorem mesh_fingerprint_exact_counterexample:
  "map co (vertices (float_mesh 1 ''Cube'' (triangle_with NaN) 0)) =
   map co (vertices (float_mesh 2 ''Cube.001'' (triangle_with NaN) 0)) \<and>
   remove_duplicate_meshes
     (mesh_pair (float_mesh 1 ''Cube'' (triangle_with NaN) 0)
                (float_mesh 2 ''Cube.001'' (triangle_with NaN) 0)) =
     (mesh_pair (float_mesh 1 ''Cube'' (triangle_with NaN) 0)
                (float_mesh 2 ''Cube.001'' (triangle_with NaN) 0),
      [NoDuplicates]) \<and>
   map co (vertices (float_mesh 1 ''Cube'' (triangle_with (Finite 0)) 0)) \<noteq>
   map co (vertices (float_mesh 2 ''Cube.001'' (triangle_with MinusZero) 0)) \<and>
   remove_duplicate_meshes
     (mesh_pair (float_mesh 1 ''Cube'' (triangle_with (Finite 0)) 0)
                (float_mesh 2 ''Cube.001'' (triangle_with MinusZero) 0)) =
     (\<lparr>images = [], materials = [],
       meshes = [float_mesh 1 ''Cube'' (triangle_with (Finite 0)) 0],
       objects = [\<lparr>obj_name = ''a'', obj_type = MESH, obj_data = Some 1\<rparr>,
                  \<lparr>obj_name = ''b'', obj_type = MESH, obj_data = Some 1\<rparr>],
       active_object = None\<rparr>,
      [Replaced ''b'' ''Cube.001'' ''Cube'', Deleted ''Cube.001'', Finished 1])"
  by (simp add: mesh_run_defs)

text \<open>
  The same triangle stored with another vertex order has another key, and the routine
  leaves such a scene as it is.
\<close>

lemma mesh_fingerprint_order_sensitive:
  "\<not> key_eq (geom_hash (tri_mesh 1 ''Cube'' [(0, 0, 0), (1, 0, 0), (0, 1, 0)] 0))
     (geom_hash (tri_mesh 2 ''Cube.001'' [(1, 0, 0), (0, 0, 0), (0, 1, 0)] 0)) \<and>
   fst (remove_duplicate_meshes (two_meshes [(1, 0, 0), (0, 0, 0), (0, 1, 0)] 0)) =
     two_meshes [(1, 0, 0), (0, 0, 0), (0, 1, 0)] 0"
  by (simp add: mesh_run_defs)

section \<open>Proofs: images\<close>

text \<open>Concrete runs of the routines are evaluated by unfolding these definitions.\<close>

lemmas string_defs =
  parse_line_def read_map_def strip_def is_space_def is_digit_def is_alnum_def split_first_def
  lower_def lower_char_def remove_spaces_def clean_name_def

lemmas image_run_defs =
  remove_duplicate_images_def image_groups_def hash_step_def get_image_hash_def group_step_def
  relink_step_def relink_def relink_node_def image_delete_step_def image_of_def image_users_def
  nodes_of_def remove_image_def rename_image_paths_def clean_image_names_def clean_image_def
  remap_textures_def remap_step_def rename_image_def
  packed_image_def image_scene_def tex_material_def Let_def

subsection \<open>Source paths of packed images\<close>

lemma paths_rename [simp]: "image_paths (rename_image r nm sc) = image_paths sc"
  by (simp add: image_paths_def rename_image_def comp_def if_distrib cong: if_cong)

lemma paths_relink [simp]: "image_paths (relink P old new sc) = image_paths sc"
  by (simp add: image_paths_def relink_def)

lemma paths_remove: "set (image_paths (remove_image r sc)) \<subseteq> set (image_paths sc)"
  by (auto simp: image_paths_def remove_image_def)

lemma paths_clean_image: "image_paths (clean_image id_name sc r) = image_paths sc"
  by (simp add: clean_image_def split: option.splits)

lemma paths_clean [simp]: "image_paths (clean_image_names id_name sc) = image_paths sc"
proof -
  have "image_paths (foldl (clean_image id_name) s rs) = image_paths s" for s rs
    by (induction rs arbitrary: s) (simp_all add: paths_clean_image)
  then show ?thesis by (simp add: clean_image_names_def)
qed

lemma paths_remap_step: "set (image_paths (fst (remap_step m st r))) \<subseteq> set (image_paths (fst st))"
  by (cases st) (auto simp: remap_step_def split: option.splits)

lemma paths_delete_step:
  "set (image_paths (fst (image_delete_step st r))) \<subseteq> set (image_paths (fst st))"
  using paths_remove by (cases st) (auto simp: image_delete_step_def split: option.splits)

lemma paths_foldl:
  assumes "\<And>st x. set (image_paths (fst (f st x))) \<subseteq> set (image_paths (fst st))"
  shows "set (image_paths (fst (foldl f st xs))) \<subseteq> set (image_paths (fst st))"
proof (induction xs arbitrary: st)
  case Nil
  show ?case by simp
next
  case (Cons x xs)
  have "set (image_paths (fst (foldl f (f st x) xs))) \<subseteq> set (image_paths (fst (f st x)))"
    by (rule Cons.IH)
  also have "\<dots> \<subseteq> set (image_paths (fst st))" by (rule assms)
  finally show ?case by simp
qed

lemma paths_relink_step:
  "set (image_paths (fst (relink_step orig st d))) \<subseteq> set (image_paths (fst st))"
  by (cases st) (simp add: relink_step_def)

lemma paths_group_step:
  "set (image_paths (fst (group_step st g))) \<subseteq> set (image_paths (fst st))"
proof (cases "snd g")
  case Nil
  then show ?thesis by (simp add: group_step_def)
next
  case (Cons orig ds)
  show ?thesis
  proof (cases ds)
    case Nil
    with Cons show ?thesis by (simp add: group_step_def)
  next
    case (Cons d others)
    have "group_step st g = foldl (relink_step orig) st ds"
      using \<open>snd g = orig # ds\<close> Cons by (simp add: group_step_def)
    then show ?thesis
      using paths_foldl[of "relink_step orig", OF paths_relink_step, of st ds] by simp
  qed
qed

lemma rename_image_paths_result:
  assumes sub: "set (image_paths sc2) \<subseteq> set (image_paths sc)"
    and img: "img \<in> set (images (rename_image_paths sc2))"
  shows "(packed_file img \<longrightarrow> filepath img = img_name img) \<and>
         (\<not> packed_file img \<longrightarrow>
            (\<exists>img0\<in>set (images sc). img_id img0 = img_id img \<and> \<not> packed_file img0 \<and>
               filepath img0 = filepath img))"
proof -
  from img obtain i where i: "i \<in> set (images sc2)"
    and eq: "img = (if packed_file i then i\<lparr>filepath := img_name i\<rparr> else i)"
    by (auto simp: rename_image_paths_def)
  show ?thesis
  proof (cases "packed_file i")
    case True
    with eq show ?thesis by simp
  next
    case False
    from i have "(img_id i, packed_file i, filepath i) \<in> set (image_paths sc2)"
      by (auto simp: image_paths_def)
    with sub have "(img_id i, packed_file i, filepath i) \<in> set (image_paths sc)" by blast
    then obtain i0 where "i0 \<in> set (images sc)" "img_id i0 = img_id i"
      "packed_file i0 = packed_file i" "filepath i0 = filepath i"
      by (auto simp: image_paths_def)
    with False eq show ?thesis by auto
  qed
qed

lemma dup_images_run:
  "remove_duplicate_images suffix_name md5_example dup_images =
     (image_scene
        [packed_image 1 ''T_1.png'' 1 ''T_1.png'', packed_image 3 ''other.png'' 2 ''other.png'']
        [tex_material 1 ''Material'' [1]],
      [Removed ''T_1.png.001''])"
  by (simp add: image_run_defs string_defs dup_images_def md5_example_def suffix_name_def)

lemma remap_run:
  "remap_textures (Some [''M_39,T_39.png''])
     (image_scene [packed_image 1 ''t_39.png'' 1 ''//textures/t_39.png''] []) =
   (image_scene [packed_image 1 ''M_39'' 1 ''M_39''] [], [])"
  by (simp add: image_run_defs string_defs)

text \<open>
  Claim C9 (as amended). \<open>remap_textures\<close>, once it has read the mapping file, and
  \<open>remove_duplicate_images\<close>, once it has found a group of more than one image, end with
  \<open>rename_image_paths\<close>: afterwards the \<open>filepath\<close> of every packed image left in the scene
  is that image's name, whether or not the pass renamed or relinked the image, and every
  unpacked image has the \<open>filepath\<close> it had before. When \<open>remove_duplicate_images\<close> finds no
  group of more than one image, and when the mapping file is missing or unreadable, the
  routine returns before that step and the scene is unchanged.
\<close>

theorem packed_paths_overwritten:
  "(\<forall>img\<in>set (images (fst (remap_textures (Some ls) sc))).
      (packed_file img \<longrightarrow> filepath img = img_name img) \<and>
      (\<not> packed_file img \<longrightarrow>
         (\<exists>img0\<in>set (images sc). img_id img0 = img_id img \<and> \<not> packed_file img0 \<and>
            filepath img0 = filepath img))) \<and>
   (list_ex (\<lambda>g. 1 < length (snd g)) (image_groups md5 sc) \<longrightarrow>
      (\<forall>img\<in>set (images (fst (remove_duplicate_images id_name md5 sc))).
         (packed_file img \<longrightarrow> filepath img = img_name img) \<and>
         (\<not> packed_file img \<longrightarrow>
            (\<exists>img0\<in>set (images sc). img_id img0 = img_id img \<and> \<not> packed_file img0 \<and>
               filepath img0 = filepath img)))) \<and>
   (\<not> list_ex (\<lambda>g. 1 < length (snd g)) (image_groups md5 sc) \<longrightarrow>
      remove_duplicate_images id_name md5 sc = (sc, [])) \<and>
   remap_textures None sc = (sc, [])"
proof (intro conjI impI ballI)
  fix img assume img: "img \<in> set (images (fst (remap_textures (Some ls) sc)))"
  obtain sc1 q where p1: "foldl (remap_step (read_map ls)) (sc, []) (map img_id (images sc)) = (sc1, q)"
    by (cases "foldl (remap_step (read_map ls)) (sc, []) (map img_id (images sc))") auto
  obtain sc2 reports where p2: "foldl image_delete_step (sc1, []) q = (sc2, reports)"
    by (cases "foldl image_delete_step (sc1, []) q") auto
  have "set (image_paths sc1) \<subseteq> set (image_paths sc)"
    using paths_foldl[of "remap_step (read_map ls)", OF paths_remap_step, of "(sc, [])" "map img_id (images sc)"] p1
    by simp
  moreover have "set (image_paths sc2) \<subseteq> set (image_paths sc1)"
    using paths_foldl[of image_delete_step, OF paths_delete_step, of "(sc1, [])" q] p2 by simp
  ultimately have sub: "set (image_paths sc2) \<subseteq> set (image_paths sc)" by blast
  have "fst (remap_textures (Some ls) sc) = rename_image_paths sc2"
    using p1 p2 by (simp add: remap_textures_def)
  with img have "img \<in> set (images (rename_image_paths sc2))" by simp
  from rename_image_paths_result[OF sub this]
  show "packed_file img \<Longrightarrow> filepath img = img_name img"
    and "\<not> packed_file img \<Longrightarrow> \<exists>img0\<in>set (images sc). img_id img0 = img_id img \<and>
      \<not> packed_file img0 \<and> filepath img0 = filepath img"
    by blast+
next
  fix img
  assume dup: "list_ex (\<lambda>g. 1 < length (snd g)) (image_groups md5 sc)"
    and img: "img \<in> set (images (fst (remove_duplicate_images id_name md5 sc)))"
  obtain sc1 q where p1: "foldl group_step (sc, []) (image_groups md5 sc) = (sc1, q)"
    by (cases "foldl group_step (sc, []) (image_groups md5 sc)") auto
  obtain sc2 reports where p2: "foldl image_delete_step (sc1, []) q = (sc2, reports)"
    by (cases "foldl image_delete_step (sc1, []) q") auto
  have "set (image_paths sc1) \<subseteq> set (image_paths sc)"
    using paths_foldl[of group_step, OF paths_group_step, of "(sc, [])" "image_groups md5 sc"] p1
    by simp
  moreover have "set (image_paths sc2) \<subseteq> set (image_paths sc1)"
    using paths_foldl[of image_delete_step, OF paths_delete_step, of "(sc1, [])" q] p2 by simp
  ultimately have sub: "set (image_paths (clean_image_names id_name sc2)) \<subseteq> set (image_paths sc)" by simp
  have "fst (remove_duplicate_images id_name md5 sc) = rename_image_paths (clean_image_names id_name sc2)"
    using p1 p2 dup by (simp add: remove_duplicate_images_def)
  with img have "img \<in> set (images (rename_image_paths (clean_image_names id_name sc2)))" by simp
  from rename_image_paths_result[OF sub this]
  show "packed_file img \<Longrightarrow> filepath img = img_name img"
    and "\<not> packed_file img \<Longrightarrow> \<exists>img0\<in>set (images sc). img_id img0 = img_id img \<and>
      \<not> packed_file img0 \<and> filepath img0 = filepath img"
    by blast+
next
  assume "\<not> list_ex (\<lambda>g. 1 < length (snd g)) (image_groups md5 sc)"
  then show "remove_duplicate_images id_name md5 sc = (sc, [])"
    by (simp add: remove_duplicate_images_def)
next
  show "remap_textures None sc = (sc, [])" by (simp add: remap_textures_def)
qed

text \<open>
  The theorem at the scene \<open>dup_images\<close>, for the packed image that is no duplicate, and at a
  scene with the image \<open>t_39.png\<close> and the mapping line \<open>M_39,T_39.png\<close>.
\<close>

theorem packed_paths_overwritten_witness:
  "list_ex (\<lambda>g. 1 < length (snd g)) (image_groups md5_example dup_images) \<and>
   packed_file (packed_image 3 ''other.png'' 2 ''other.png'') \<and>
   filepath (packed_image 3 ''other.png'' 2 ''other.png'') =
     img_name (packed_image 3 ''other.png'' 2 ''other.png'') \<and>
   filepath (packed_image 1 ''M_39'' 1 ''M_39'') = img_name (packed_image 1 ''M_39'' 1 ''M_39'')"
proof -
  let ?other = "packed_image 3 ''other.png'' 2 ''other.png''"
  let ?m39 = "packed_image 1 ''M_39'' 1 ''M_39''"
  let ?sc = "image_scene [packed_image 1 ''t_39.png'' 1 ''//textures/t_39.png''] []"
  have h1: "list_ex (\<lambda>g. 1 < length (snd g)) (image_groups md5_example dup_images)"
    by (simp add: image_run_defs dup_images_def md5_example_def)
  have h2: "?other \<in> set (images (fst (remove_duplicate_images suffix_name md5_example dup_images)))"
    unfolding dup_images_run by (simp add: image_scene_def)
  have h3: "packed_file ?other" by (simp add: packed_image_def)
  have h4: "?m39 \<in> set (images (fst (remap_textures (Some [''M_39,T_39.png'']) ?sc)))"
    unfolding remap_run by (simp add: image_scene_def)
  have h5: "packed_file ?m39" by (simp add: packed_image_def)
  note i1 = packed_paths_overwritten[of "[]" dup_images md5_example]
  note i2 = packed_paths_overwritten[of "[''M_39,T_39.png'']" ?sc md5_example]
  from i1 h1 h2 h3 have "filepath ?other = img_name ?other" by blast
  moreover from i2 h4 h5 have "filepath ?m39 = img_name ?m39" by blast
  ultimately show ?thesis using h1 h3 by simp
qed

text \<open>
  Claim C9 as stated has both routines always end with that step. In a scene with one
  packed image, whose \<open>filepath\<close> differs from its name, \<open>remove_duplicate_images\<close> finds
  no duplicates and returns at once: the \<open>filepath\<close> is not overwritten.
\<close>

theorem packed_paths_overwritten_counterexample:
  "(\<forall>id_name md5. remove_duplicate_images id_name md5
            (image_scene [packed_image 1 ''a.png'' 1 ''//textures/a.png''] []) =
          (image_scene [packed_image 1 ''a.png'' 1 ''//textures/a.png''] [], [])) \<and>
   packed_file (packed_image 1 ''a.png'' 1 ''//textures/a.png'') \<and>
   filepath (packed_image 1 ''a.png'' 1 ''//textures/a.png'') \<noteq>
     img_name (packed_image 1 ''a.png'' 1 ''//textures/a.png'')"
  by (simp add: image_run_defs)

subsection \<open>Renaming or consolidating an image\<close>

lemma relink_node_not_old:
  "old \<noteq> new \<Longrightarrow> nd_type (relink_node old new nd) = TEX_IMAGE \<Longrightarrow>
   nd_image (relink_node old new nd) \<noteq> Some old"
  by (auto simp: relink_node_def split: if_splits)

lemma nodes_of_relink:
  assumes "m' \<in> set (materials (relink (\<lambda>mat. node_tree mat \<noteq> None) old new sc))"
  shows "\<exists>m\<in>set (materials sc). nodes_of m' = map (relink_node old new) (nodes_of m)"
proof -
  from assms obtain m where m: "m \<in> set (materials sc)"
    and eq: "m' = (if node_tree m \<noteq> None
                   then m\<lparr>node_tree := map_option (map (relink_node old new)) (node_tree m)\<rparr>
                   else m)"
    by (auto simp: relink_def)
  have "nodes_of m' = map (relink_node old new) (nodes_of m)"
    using eq by (cases "node_tree m") (simp_all add: nodes_of_def)
  with m show ?thesis by blast
qed

text \<open>
  Claim C8 (as amended). In \<open>remap_textures\<close> the name of an image is normalised by removing
  the space characters (not other whitespace) and lower-casing; the keys of the mapping
  are the original names of the file, trimmed, without spaces and lower-cased. For an
  image whose normalised name is a key, with the new name \<open>new_name\<close>:
  if no image has the name \<open>new_name\<close>, the image is renamed to it; if the image found
  under \<open>new_name\<close> is another image, the image keeps its name, every \<open>TEX_IMAGE\<close> node that
  referred to it refers to that target, and it is queued; if the image found is the image
  itself, nothing changes. A queued image is deleted if its user count is zero when the
  second loop reaches it, and is otherwise kept and reported.
\<close>

theorem remap_rename_or_consolidate:
  assumes "image_of sc r = Some img"
    and "image_map (lower (remove_spaces (img_name img))) = Some new_name"
  shows "(find (\<lambda>i. img_name i = new_name) (images sc) = None \<longrightarrow>
            remap_step image_map (sc, q) r = (rename_image r new_name sc, q)) \<and>
         (\<forall>target. find (\<lambda>i. img_name i = new_name) (images sc) = Some target \<and>
                   img_id target \<noteq> r \<longrightarrow>
            (\<exists>sc'. remap_step image_map (sc, q) r = (sc', q @ [r]) \<and> images sc' = images sc \<and>
               (\<forall>m\<in>set (materials sc'). \<forall>nd\<in>set (nodes_of m).
                   nd_type nd = TEX_IMAGE \<longrightarrow> nd_image nd \<noteq> Some r) \<and>
               map (\<lambda>m. map nd_image (nodes_of m)) (materials sc') =
               map (\<lambda>m. map (\<lambda>nd. if nd_type nd = TEX_IMAGE \<and> nd_image nd = Some r
                                   then Some (img_id target) else nd_image nd) (nodes_of m))
                 (materials sc))) \<and>
         (\<forall>target. find (\<lambda>i. img_name i = new_name) (images sc) = Some target \<and>
                   img_id target = r \<longrightarrow>
            remap_step image_map (sc, q) r = (sc, q)) \<and>
         (image_users sc img = 0 \<longrightarrow>
            image_delete_step (sc, reports) r =
              (remove_image r sc, reports @ [Removed (img_name img)])) \<and>
         (image_users sc img \<noteq> 0 \<longrightarrow>
            image_delete_step (sc, reports) r =
              (sc, reports @ [StillUsed (img_name img) (image_users sc img)]))"
proof -
  have r: "img_id img = r"
    using assms(1) by (auto simp: image_of_def dest: find_Some_iff[THEN iffD1])
  have a: "find (\<lambda>i. img_name i = new_name) (images sc) = None \<longrightarrow>
            remap_step image_map (sc, q) r = (rename_image r new_name sc, q)"
    using assms by (simp add: remap_step_def)
  have b: "\<exists>sc'. remap_step image_map (sc, q) r = (sc', q @ [r]) \<and> images sc' = images sc \<and>
               (\<forall>m\<in>set (materials sc'). \<forall>nd\<in>set (nodes_of m).
                   nd_type nd = TEX_IMAGE \<longrightarrow> nd_image nd \<noteq> Some r) \<and>
               map (\<lambda>m. map nd_image (nodes_of m)) (materials sc') =
               map (\<lambda>m. map (\<lambda>nd. if nd_type nd = TEX_IMAGE \<and> nd_image nd = Some r
                                   then Some (img_id target) else nd_image nd) (nodes_of m))
                 (materials sc)"
    if t: "find (\<lambda>i. img_name i = new_name) (images sc) = Some target \<and> img_id target \<noteq> r"
    for target
  proof -
    let ?sc' = "relink (\<lambda>mat. node_tree mat \<noteq> None) r (img_id target) sc"
    have step: "remap_step image_map (sc, q) r = (?sc', q @ [r])"
      using assms t r by (simp add: remap_step_def)
    have imgs: "images ?sc' = images sc" by (simp add: relink_def)
    have none: "\<forall>m\<in>set (materials ?sc'). \<forall>nd\<in>set (nodes_of m).
                   nd_type nd = TEX_IMAGE \<longrightarrow> nd_image nd \<noteq> Some r"
    proof (intro ballI impI)
      fix m nd assume m: "m \<in> set (materials ?sc')" and nd: "nd \<in> set (nodes_of m)"
        and ty: "nd_type nd = TEX_IMAGE"
      from nodes_of_relink[OF m] obtain m0 where
        "nodes_of m = map (relink_node r (img_id target)) (nodes_of m0)" by blast
      with nd obtain nd0 where "nd = relink_node r (img_id target) nd0" by auto
      with ty t show "nd_image nd \<noteq> Some r"
        using relink_node_not_old[of r "img_id target" nd0] by auto
    qed
    have nodes: "map (\<lambda>m. map nd_image (nodes_of m)) (materials ?sc') =
               map (\<lambda>m. map (\<lambda>nd. if nd_type nd = TEX_IMAGE \<and> nd_image nd = Some r
                                   then Some (img_id target) else nd_image nd) (nodes_of m))
                 (materials sc)"
      by (auto simp: relink_def nodes_of_def relink_node_def split: option.splits)
    from step imgs none nodes show ?thesis by blast
  qed
  have c: "remap_step image_map (sc, q) r = (sc, q)"
    if "find (\<lambda>i. img_name i = new_name) (images sc) = Some target \<and> img_id target = r"
    for target
    using assms that r by (simp add: remap_step_def)
  have d: "image_users sc img = 0 \<longrightarrow>
            image_delete_step (sc, reports) r =
              (remove_image r sc, reports @ [Removed (img_name img)])"
    and e: "image_users sc img \<noteq> 0 \<longrightarrow>
            image_delete_step (sc, reports) r =
              (sc, reports @ [StillUsed (img_name img) (image_users sc img)])"
    using assms(1) by (simp_all add: image_delete_step_def)
  from a b c d e show ?thesis by blast
qed

text \<open>
  The theorem at the mapping line \<open>M_39,T_39.png\<close> and the image \<open>t_39.png\<close>: the image is
  renamed.
\<close>

theorem remap_rename_or_consolidate_witness:
  "remap_step (read_map [''M_39,T_39.png''])
     (image_scene [packed_image 1 ''t_39.png'' 1 ''t_39.png''] [], []) 1 =
   (image_scene [packed_image 1 ''M_39'' 1 ''t_39.png''] [], [])"
proof -
  let ?img = "packed_image 1 ''t_39.png'' 1 ''t_39.png''"
  let ?sc = "image_scene [?img] []"
  have h1: "image_of ?sc 1 = Some ?img"
    by (simp add: image_of_def image_scene_def packed_image_def)
  have h2: "read_map [''M_39,T_39.png''] (lower (remove_spaces (img_name ?img))) = Some ''M_39''"
    by (simp add: string_defs packed_image_def)
  have h3: "find (\<lambda>i. img_name i = ''M_39'') (images ?sc) = None"
    by (simp add: image_scene_def packed_image_def)
  from remap_rename_or_consolidate
         [where image_map = "read_map [''M_39,T_39.png'']" and q = "[]" and reports = "[]",
          OF h1 h2] h3
  have "remap_step (read_map [''M_39,T_39.png'']) (?sc, []) 1 = (rename_image 1 ''M_39'' ?sc, [])"
    by blast
  then show ?thesis by (simp add: rename_image_def image_scene_def packed_image_def)
qed

text \<open>
  Two names mapped to the same target: the first image is renamed, the second is
  consolidated into it and deleted.
\<close>

lemma remap_two_sources:
  "remap_textures (Some [''M_1,a.png'', ''M_1,b.png''])
     (image_scene [packed_image 1 ''a.png'' 1 ''a.png'', packed_image 2 ''b.png'' 2 ''b.png'']
        [tex_material 1 ''Material'' [2]]) =
   (image_scene [packed_image 1 ''M_1'' 1 ''M_1''] [tex_material 1 ''Material'' [1]],
    [Removed ''b.png''])"
  by (simp add: image_run_defs string_defs)

text \<open>
  Claim C8 as stated normalises the name of an image by removing whitespace. An image
  whose name holds a tab (\<open>t<TAB>39.png\<close>) has, without whitespace and in lower case, the
  name \<open>t39.png\<close>, which is a key of the mapping \<open>M_39,t39.png\<close>; the routine removes
  spaces only, finds no key and does not rename the image.
\<close>

theorem remap_rename_or_consolidate_counterexample:
  "lower (filter (\<lambda>c. \<not> is_space c) (''t'' @ [CHR 0x09] @ ''39.png'')) = ''t39.png'' \<and>
   read_map [''M_39,t39.png''] ''t39.png'' = Some ''M_39'' \<and>
   remap_textures (Some [''M_39,t39.png''])
     (image_scene [packed_image 1 (''t'' @ [CHR 0x09] @ ''39.png'') 1 ''t39.png''] []) =
   (image_scene [packed_image 1 (''t'' @ [CHR 0x09] @ ''39.png'') 1
                   (''t'' @ [CHR 0x09] @ ''39.png'')] [], [])"
  by (simp add: image_run_defs string_defs)

section \<open>Proofs: duplicate materials\<close>

text \<open>Concrete runs of the routine are evaluated by unfolding these definitions.\<close>

lemmas material_run_defs =
  remove_duplicate_materials_def material_phase1_def material_step_def linked_materials_def
  nodes_of_def used_by_mesh_object_def replace_material_def material_delete_step_def
  material_of_def material_users_def remove_material_def rename_step_def rename_material_def
  material_name_for_def splitext_def rfind_def split_first_def is_digit_def
  material_scene_def bare_mesh_def tex_material_def packed_image_def chain_def
  numbered_images_def suffix_name_def Let_def

subsection \<open>The three phases\<close>

lemma replace_material_frame:
  "materials (replace_material d f s) = materials s"
  "images (replace_material d f s) = images s"
  by (simp_all add: replace_material_def)

lemma foldl_replace_frame:
  "materials (foldl (\<lambda>s d. replace_material (g d) f s) s ds) = materials s"
  "images (foldl (\<lambda>s d. replace_material (g d) f s) s ds) = images s"
  by (induction ds arbitrary: s) (simp_all add: replace_material_frame)

lemma linked_materials_cong:
  "materials s = materials s' \<Longrightarrow> linked_materials s r = linked_materials s' r"
  by (simp add: linked_materials_def)

lemma first_linked_cong:
  "materials s = materials s' \<Longrightarrow> first_linked s i = first_linked s' i"
  by (simp add: first_linked_def linked_materials_def)

lemma set_dict_set: "set (dict_set k v m) \<subseteq> insert (k, v) (set m)"
  by (induction m) (auto split: if_splits)

lemma dict_set_fresh: "k \<notin> fst ` set m \<Longrightarrow> dict_set k v m = m @ [(k, v)]"
proof (induction m)
  case Nil
  show ?case by simp
next
  case (Cons a m)
  obtain k' v' where a: "a = (k', v')" by (cases a) auto
  from Cons.prems a have "k \<noteq> k'" and "k \<notin> fst ` set m" by auto
  with Cons.IH a show ?case by simp
qed

lemma material_step_frame:
  "materials (fst (material_step st img)) = materials (fst st)"
  by (cases st) (simp add: material_step_def foldl_replace_frame split: list.splits)

lemma material_step_items:
  assumes "material_step (s, items, del) img = (s', items', del')"
  shows "items' = (case first_linked s img of None \<Rightarrow> items
                   | Some r \<Rightarrow> dict_set (img_name img) r items)"
  using assms by (auto simp: material_step_def first_linked_def split: list.splits)

lemma phase1_frame:
  "materials (fst (foldl material_step st imgs)) = materials (fst st)"
  by (induction imgs arbitrary: st) (simp_all add: material_step_frame)

lemma phase1_items_sound:
  assumes "\<forall>(k, r)\<in>set (fst (snd st)). \<exists>i\<in>A. k = img_name i \<and> first_linked sc i = Some r"
    and "set imgs \<subseteq> A" and "materials (fst st) = materials sc"
  shows "\<forall>(k, r)\<in>set (fst (snd (foldl material_step st imgs))).
           \<exists>i\<in>A. k = img_name i \<and> first_linked sc i = Some r"
  using assms
proof (induction imgs arbitrary: st)
  case Nil
  then show ?case by simp
next
  case (Cons x xs)
  obtain s items del where st: "st = (s, items, del)" by (cases st) auto
  define s' where "s' = fst (material_step (s, items, del) x)"
  define items' where "items' = fst (snd (material_step (s, items, del) x))"
  define del' where "del' = snd (snd (material_step (s, items, del) x))"
  have step: "material_step (s, items, del) x = (s', items', del')"
    by (simp only: s'_def items'_def del'_def prod.collapse)
  have fl: "first_linked s x = first_linked sc x"
    using Cons.prems(3) st by (intro first_linked_cong) simp
  have items': "items' = (case first_linked sc x of None \<Rightarrow> items
                   | Some r \<Rightarrow> dict_set (img_name x) r items)"
    using material_step_items[OF step] fl by simp
  have "\<forall>(k, r)\<in>set items'. \<exists>i\<in>A. k = img_name i \<and> first_linked sc i = Some r"
  proof (cases "first_linked sc x")
    case None
    with items' Cons.prems(1) st show ?thesis by simp
  next
    case (Some r)
    with items' have "set items' \<subseteq> insert (img_name x, r) (set items)"
      using set_dict_set by simp
    moreover have "x \<in> A" using Cons.prems(2) by simp
    ultimately show ?thesis using Cons.prems(1) st Some by fastforce
  qed
  moreover have "materials s' = materials sc"
    using material_step_frame[of "(s, items, del)" x] step Cons.prems(3) st by simp
  ultimately show ?case
    using Cons.IH[of "(s', items', del')"] Cons.prems(2) st step by simp
qed

lemma phase1_items_complete:
  assumes "distinct (map img_name imgs)"
    and "fst ` set (fst (snd st)) \<inter> img_name ` set imgs = {}"
    and "materials (fst st) = materials sc"
  shows "set (fst (snd st)) \<subseteq> set (fst (snd (foldl material_step st imgs))) \<and>
         (\<forall>i\<in>set imgs. \<forall>r. first_linked sc i = Some r \<longrightarrow>
            (img_name i, r) \<in> set (fst (snd (foldl material_step st imgs))))"
  using assms
proof (induction imgs arbitrary: st)
  case Nil
  then show ?case by simp
next
  case (Cons x xs)
  obtain s items del where st: "st = (s, items, del)" by (cases st) auto
  define s' where "s' = fst (material_step (s, items, del) x)"
  define items' where "items' = fst (snd (material_step (s, items, del) x))"
  define del' where "del' = snd (snd (material_step (s, items, del) x))"
  have step: "material_step (s, items, del) x = (s', items', del')"
    by (simp only: s'_def items'_def del'_def prod.collapse)
  have fl: "first_linked s x = first_linked sc x"
    using Cons.prems(3) st by (intro first_linked_cong) simp
  have fresh: "img_name x \<notin> fst ` set items" using Cons.prems(2) st by auto
  have items': "items' = (case first_linked sc x of None \<Rightarrow> items
                   | Some r \<Rightarrow> items @ [(img_name x, r)])"
    using material_step_items[OF step] fl dict_set_fresh[OF fresh]
    by (simp split: option.splits)
  have sub: "set items \<subseteq> set items'" using items' by (auto split: option.splits)
  have keys: "fst ` set items' \<subseteq> insert (img_name x) (fst ` set items)"
    using items' by (auto split: option.splits)
  have nx: "img_name x \<notin> img_name ` set xs" using Cons.prems(1) by simp
  have dj: "fst ` set items \<inter> img_name ` set xs = {}" using Cons.prems(2) st by auto
  have "fst ` set items' \<inter> img_name ` set xs = {}"
  proof (rule equals0I)
    fix k assume "k \<in> fst ` set items' \<inter> img_name ` set xs"
    then have k1: "k \<in> fst ` set items'" and k2: "k \<in> img_name ` set xs" by simp_all
    from keys k1 have "k \<in> insert (img_name x) (fst ` set items)" by (rule subsetD)
    then have "k = img_name x \<or> k \<in> fst ` set items" by simp
    then show False
    proof
      assume "k = img_name x"
      with k2 nx show False by simp
    next
      assume "k \<in> fst ` set items"
      with k2 have "k \<in> fst ` set items \<inter> img_name ` set xs" by simp
      with dj show False by simp
    qed
  qed
  moreover have "materials s' = materials sc"
    using material_step_frame[of "(s, items, del)" x] step Cons.prems(3) st by simp
  moreover have "distinct (map img_name xs)" using Cons.prems(1) by simp
  ultimately have IH: "set items' \<subseteq> set (fst (snd (foldl material_step (s', items', del') xs))) \<and>
         (\<forall>i\<in>set xs. \<forall>r. first_linked sc i = Some r \<longrightarrow>
            (img_name i, r) \<in> set (fst (snd (foldl material_step (s', items', del') xs))))"
    using Cons.IH[of "(s', items', del')"] by simp
  have x: "\<forall>r. first_linked sc x = Some r \<longrightarrow> (img_name x, r) \<in> set items'"
    using items' by simp
  have res: "foldl material_step st (x # xs) = foldl material_step (s', items', del') xs"
    using st step by simp
  have "set (fst (snd st)) \<subseteq> set (fst (snd (foldl material_step st (x # xs))))"
    unfolding res using IH sub st by auto
  moreover have "\<forall>i\<in>set (x # xs). \<forall>r. first_linked sc i = Some r \<longrightarrow>
            (img_name i, r) \<in> set (fst (snd (foldl material_step st (x # xs))))"
    unfolding res using IH x by auto
  ultimately show ?case by blast
qed

lemma linked_items_append:
  "linked_items sc (xs @ ys) = linked_items sc xs @ linked_items sc ys"
  by (simp add: linked_items_def)

lemma linked_items_keys: "fst ` set (linked_items sc xs) \<subseteq> img_name ` set xs"
  by (auto simp: linked_items_def split: option.splits)

lemma phase1_items_exact:
  assumes "distinct (map img_name imgs)"
    and "fst ` set (fst (snd st)) \<inter> img_name ` set imgs = {}"
    and "materials (fst st) = materials sc"
  shows "fst (snd (foldl material_step st imgs)) = fst (snd st) @ linked_items sc imgs"
  using assms
proof (induction imgs arbitrary: st)
  case Nil
  then show ?case by (simp add: linked_items_def)
next
  case (Cons x xs)
  obtain s items del where st: "st = (s, items, del)" by (cases st) auto
  define s' where "s' = fst (material_step (s, items, del) x)"
  define items' where "items' = fst (snd (material_step (s, items, del) x))"
  define del' where "del' = snd (snd (material_step (s, items, del) x))"
  have step: "material_step (s, items, del) x = (s', items', del')"
    by (simp only: s'_def items'_def del'_def prod.collapse)
  have fl: "first_linked s x = first_linked sc x"
    using Cons.prems(3) st by (intro first_linked_cong) simp
  have fresh: "img_name x \<notin> fst ` set items" using Cons.prems(2) st by auto
  have items': "items' = items @ linked_items sc [x]"
    using material_step_items[OF step] fl dict_set_fresh[OF fresh]
    by (simp add: linked_items_def split: option.splits)
  have keys: "fst ` set items' \<subseteq> insert (img_name x) (fst ` set items)"
    using items' linked_items_keys[of sc "[x]"] by auto
  have nx: "img_name x \<notin> img_name ` set xs" using Cons.prems(1) by simp
  have dj: "fst ` set items \<inter> img_name ` set xs = {}" using Cons.prems(2) st by auto
  have "fst ` set items' \<inter> img_name ` set xs = {}"
  proof (rule equals0I)
    fix k assume "k \<in> fst ` set items' \<inter> img_name ` set xs"
    then have k1: "k \<in> fst ` set items'" and k2: "k \<in> img_name ` set xs" by simp_all
    from keys k1 have "k \<in> insert (img_name x) (fst ` set items)" by (rule subsetD)
    then have "k = img_name x \<or> k \<in> fst ` set items" by simp
    then show False
    proof
      assume "k = img_name x"
      with k2 nx show False by simp
    next
      assume "k \<in> fst ` set items"
      with k2 have "k \<in> fst ` set items \<inter> img_name ` set xs" by simp
      with dj show False by simp
    qed
  qed
  moreover have "materials s' = materials sc"
    using material_step_frame[of "(s, items, del)" x] step Cons.prems(3) st by simp
  moreover have "distinct (map img_name xs)" using Cons.prems(1) by simp
  ultimately have IH: "fst (snd (foldl material_step (s', items', del') xs)) =
      items' @ linked_items sc xs"
    using Cons.IH[of "(s', items', del')"] by simp
  have res: "foldl material_step st (x # xs) = foldl material_step (s', items', del') xs"
    using st step by simp
  have c: "linked_items sc (x # xs) = linked_items sc [x] @ linked_items sc xs"
    using linked_items_append[of sc "[x]" xs] by simp
  have "fst (snd (foldl material_step st (x # xs))) = items' @ linked_items sc xs"
    unfolding res by (rule IH)
  also have "\<dots> = fst (snd st) @ linked_items sc (x # xs)"
    unfolding c items' by (simp add: st)
  finally show ?case .
qed

lemma delete_step_filter:
  "\<exists>P. materials (fst (material_delete_step st r)) = filter P (materials (fst st))"
proof (cases st)
  case (Pair s reports)
  show ?thesis
  proof (cases "material_of s r")
    case None
    with Pair have "materials (fst (material_delete_step st r)) = filter (\<lambda>_. True) (materials (fst st))"
      by (simp add: material_delete_step_def)
    then show ?thesis by blast
  next
    case (Some mat)
    show ?thesis
    proof (cases "material_users s mat = 0")
      case True
      with Pair Some have "materials (fst (material_delete_step st r)) =
          filter (\<lambda>m. mat_id m \<noteq> r) (materials (fst st))"
        by (simp add: material_delete_step_def remove_material_def)
      then show ?thesis by blast
    next
      case False
      with Pair Some have "materials (fst (material_delete_step st r)) =
          filter (\<lambda>_. True) (materials (fst st))"
        by (simp add: material_delete_step_def)
      then show ?thesis by blast
    qed
  qed
qed

lemma phase2_filter:
  "\<exists>P. materials (fst (foldl material_delete_step st rs)) = filter P (materials (fst st))"
proof (induction rs arbitrary: st)
  case Nil
  have "materials (fst st) = filter (\<lambda>_. True) (materials (fst st))" by simp
  then show ?case by (metis foldl_Nil)
next
  case (Cons r rs)
  from delete_step_filter[of st r] obtain P where
    P: "materials (fst (material_delete_step st r)) = filter P (materials (fst st))" by blast
  from Cons.IH[of "material_delete_step st r"] obtain Q where
    Q: "materials (fst (foldl material_delete_step (material_delete_step st r) rs)) =
        filter Q (materials (fst (material_delete_step st r)))" by blast
  have "materials (fst (foldl material_delete_step st (r # rs))) =
        filter (\<lambda>m. P m \<and> Q m) (materials (fst st))"
    using P Q by simp
  then show ?case by blast
qed

lemma rename_material_names:
  assumes host: "\<And>used nm. nm \<notin> set used \<Longrightarrow> id_name used nm = nm"
    and free: "\<forall>m\<in>set (materials s). mat_name m = new \<longrightarrow> mat_id m = r"
  shows "rename_material id_name r new s =
           s\<lparr>materials := map (\<lambda>m. if mat_id m = r then m\<lparr>mat_name := new\<rparr> else m) (materials s)\<rparr>"
proof -
  have "new \<notin> set (map mat_name (filter (\<lambda>m'. mat_id m' \<noteq> r) (materials s)))"
    using free by auto
  then have "id_name (map mat_name (filter (\<lambda>m'. mat_id m' \<noteq> r) (materials s))) new = new"
    by (rule host)
  then show ?thesis by (simp add: rename_material_def)
qed

lemma rename_step_names:
  assumes "distinct (map mat_id (materials s))"
    and host: "\<And>used nm. nm \<notin> set used \<Longrightarrow> id_name used nm = nm"
    and free: "\<And>new. material_name_for (fst item) = Some new \<Longrightarrow>
                 \<forall>m\<in>set (materials s). mat_name m = new \<longrightarrow> mat_id m = snd item"
  shows "map (\<lambda>m. (mat_id m, mat_name m)) (materials (rename_step id_name s item)) =
         map (\<lambda>m. (mat_id m,
                    if snd item = mat_id m
                    then (case material_name_for (fst item) of Some new \<Rightarrow> new | None \<Rightarrow> mat_name m)
                    else mat_name m))
           (materials s)"
proof (cases item)
  case (Pair k r)
  show ?thesis
  proof (cases "material_name_for k")
    case None
    with Pair show ?thesis by (simp add: rename_step_def)
  next
    case (Some new)
    have ren: "rename_material id_name r new s =
           s\<lparr>materials := map (\<lambda>m. if mat_id m = r then m\<lparr>mat_name := new\<rparr> else m) (materials s)\<rparr>"
      by (rule rename_material_names[OF host]) (use free[of new] Pair Some in simp_all)
    show ?thesis
    proof (cases "material_of s r")
      case None
      then have "\<forall>m\<in>set (materials s). mat_id m \<noteq> r"
        by (auto simp: material_of_def find_None_iff)
      with Pair Some None show ?thesis by (auto simp: rename_step_def)
    next
      case mat: (Some material)
      then have in_s: "material \<in> set (materials s)" and id: "mat_id material = r"
        by (auto simp: material_of_def find_Some_iff)
      show ?thesis
      proof (cases "mat_name material = new")
        case False
        with Pair Some mat show ?thesis
          by (auto simp: rename_step_def ren)
      next
        case True
        have "\<forall>m\<in>set (materials s). mat_id m = r \<longrightarrow> m = material"
          using assms(1) in_s id by (auto simp: distinct_map inj_on_def)
        with Pair Some mat True show ?thesis by (auto simp: rename_step_def)
      qed
    qed
  qed
qed

lemma rename_step_ids:
  "map mat_id (materials (rename_step id_name s item)) = map mat_id (materials s)"
  by (cases item)
     (auto simp: rename_step_def rename_material_def split: option.splits)

lemma clash_free_step:
  assumes cf: "clash_free ms (item # items)"
    and names: "map (\<lambda>m. (mat_id m, mat_name m)) ms' =
         map (\<lambda>m. (mat_id m,
                    if snd item = mat_id m
                    then (case material_name_for (fst item) of Some new \<Rightarrow> new | None \<Rightarrow> mat_name m)
                    else mat_name m)) ms"
  shows "clash_free ms' items"
  unfolding clash_free_def
proof (intro ballI)
  fix it assume it: "it \<in> set items"
  show "case material_name_for (fst it) of
          None \<Rightarrow> True
        | Some new \<Rightarrow>
            (\<forall>m\<in>set ms'. mat_name m = new \<longrightarrow> mat_id m = snd it) \<and>
            (\<forall>item'\<in>set items. material_name_for (fst item') = Some new \<longrightarrow> snd item' = snd it)"
  proof (cases "material_name_for (fst it)")
    case None
    then show ?thesis by simp
  next
    case (Some new)
    have "it \<in> set (item # items)" using it by simp
    from bspec[OF cf[unfolded clash_free_def] this]
    have "(\<forall>m\<in>set ms. mat_name m = new \<longrightarrow> mat_id m = snd it) \<and>
          (\<forall>item'\<in>set (item # items). material_name_for (fst item') = Some new \<longrightarrow>
                     snd item' = snd it)"
      by (simp only: Some option.case)
    then have old: "\<forall>m\<in>set ms. mat_name m = new \<longrightarrow> mat_id m = snd it"
      and others: "\<forall>item'\<in>set (item # items). material_name_for (fst item') = Some new \<longrightarrow>
                     snd item' = snd it"
      by (rule conjunct1, rule conjunct2)
    have "mat_id m' = snd it" if m': "m' \<in> set ms'" and nm: "mat_name m' = new" for m'
    proof -
      from m' have "(mat_id m', mat_name m') \<in> set (map (\<lambda>m. (mat_id m, mat_name m)) ms')"
        by (simp add: image_iff) blast
      then obtain m where m: "m \<in> set ms" "mat_id m' = mat_id m"
        and n: "mat_name m' =
                  (if snd item = mat_id m
                   then (case material_name_for (fst item) of Some new \<Rightarrow> new | None \<Rightarrow> mat_name m)
                   else mat_name m)"
        unfolding names by auto
      show ?thesis
      proof (cases "snd item = mat_id m \<and> material_name_for (fst item) \<noteq> None")
        case True
        then obtain new0 where new0: "material_name_for (fst item) = Some new0" by auto
        with True n nm have "new0 = new" by simp
        with new0 others have "snd item = snd it" by simp
        with True m(2) show ?thesis by simp
      next
        case False
        with n have "mat_name m' = mat_name m" by (auto split: option.splits)
        with nm old m show ?thesis by simp
      qed
    qed
    moreover have "\<forall>item'\<in>set items. material_name_for (fst item') = Some new \<longrightarrow>
                     snd item' = snd it"
      using others by simp
    ultimately show ?thesis by (simp add: Some)
  qed
qed

lemma phase3_names:
  assumes "distinct (map mat_id (materials s))"
    and host: "\<And>used nm. nm \<notin> set used \<Longrightarrow> id_name used nm = nm"
    and cf: "clash_free (materials s) items"
  shows "map (\<lambda>m. (mat_id m, mat_name m)) (materials (foldl (rename_step id_name) s items)) =
         map (\<lambda>m. (mat_id m, name_after items (mat_id m) (mat_name m))) (materials s)"
  using assms(1) cf
proof (induction items arbitrary: s)
  case Nil
  then show ?case by (simp add: name_after_def)
next
  case (Cons item items)
  let ?s1 = "rename_step id_name s item"
  have d1: "distinct (map mat_id (materials ?s1))"
    using Cons.prems(1) by (simp add: rename_step_ids)
  have free: "\<forall>m\<in>set (materials s). mat_name m = new \<longrightarrow> mat_id m = snd item"
    if "material_name_for (fst item) = Some new" for new
  proof -
    have "item \<in> set (item # items)" by simp
    from bspec[OF Cons.prems(2)[unfolded clash_free_def] this]
    have "(\<forall>m\<in>set (materials s). mat_name m = new \<longrightarrow> mat_id m = snd item) \<and>
          (\<forall>item'\<in>set (item # items). material_name_for (fst item') = Some new \<longrightarrow>
                     snd item' = snd item)"
      by (simp only: that option.case)
    then show ?thesis by (rule conjunct1)
  qed
  have step: "map (\<lambda>m. (mat_id m, mat_name m)) (materials ?s1) =
         map (\<lambda>m. (mat_id m,
                    if snd item = mat_id m
                    then (case material_name_for (fst item) of Some new \<Rightarrow> new | None \<Rightarrow> mat_name m)
                    else mat_name m))
           (materials s)"
    by (rule rename_step_names[OF Cons.prems(1) host free])
  have cf1: "clash_free (materials ?s1) items"
    by (rule clash_free_step[OF Cons.prems(2) step])
  have "map (\<lambda>m. (mat_id m, mat_name m)) (materials (foldl (rename_step id_name) ?s1 items)) =
        map (\<lambda>m. (mat_id m, name_after items (mat_id m) (mat_name m))) (materials ?s1)"
    by (rule Cons.IH[OF d1 cf1])
  also have "\<dots> = map (\<lambda>p. (fst p, name_after items (fst p) (snd p)))
                     (map (\<lambda>m. (mat_id m, mat_name m)) (materials ?s1))"
    by (simp add: comp_def)
  also have "\<dots> = map (\<lambda>m. (mat_id m, name_after (item # items) (mat_id m) (mat_name m)))
                     (materials s)"
    unfolding step by (simp add: comp_def name_after_def)
  finally show ?case by simp
qed

lemma name_after_cases:
  "name_after items r nm = nm \<or>
   (\<exists>k. (k, r) \<in> set items \<and> material_name_for k = Some (name_after items r nm))"
proof (induction items arbitrary: nm)
  case Nil
  show ?case by (simp add: name_after_def)
next
  case (Cons item items)
  let ?nm1 = "if snd item = r
              then (case material_name_for (fst item) of Some new \<Rightarrow> new | None \<Rightarrow> nm) else nm"
  have eq: "name_after (item # items) r nm = name_after items r ?nm1"
    by (simp add: name_after_def)
  from Cons.IH[of ?nm1] show ?case
  proof
    assume a: "name_after items r ?nm1 = ?nm1"
    show ?thesis
    proof (cases "snd item = r \<and> material_name_for (fst item) \<noteq> None")
      case True
      then obtain new where new: "material_name_for (fst item) = Some new" by auto
      with True a eq have "name_after (item # items) r nm = new" by simp
      moreover have "(fst item, r) \<in> set (item # items)" using True by (cases item) auto
      ultimately show ?thesis using new by auto
    next
      case False
      with a eq have "name_after (item # items) r nm = nm" by (auto split: option.splits)
      then show ?thesis by simp
    qed
  next
    assume "\<exists>k. (k, r) \<in> set items \<and> material_name_for k = Some (name_after items r ?nm1)"
    then show ?thesis unfolding eq by auto
  qed
qed

lemma name_after_only:
  assumes "(k0, r) \<in> set items" and "material_name_for k0 = Some new"
    and "\<forall>k. (k, r) \<in> set items \<longrightarrow> k = k0"
  shows "name_after items r nm = new"
proof -
  from name_after_cases[of items r nm] show ?thesis
  proof
    assume "\<exists>k. (k, r) \<in> set items \<and> material_name_for k = Some (name_after items r nm)"
    then obtain k where k: "(k, r) \<in> set items"
      "material_name_for k = Some (name_after items r nm)" by blast
    from k(1) assms(3) have "k = k0" by blast
    with k(2) assms(2) show ?thesis by simp
  next
    assume same: "name_after items r nm = nm"
    have "\<exists>k. (k, r) \<in> set items \<and> material_name_for k = Some (name_after items r nm)"
      using assms(1,2)
    proof (induction items arbitrary: nm)
      case Nil
      then show ?case by simp
    next
      case (Cons item items)
      let ?nm1 = "if snd item = r
              then (case material_name_for (fst item) of Some new \<Rightarrow> new | None \<Rightarrow> nm) else nm"
      have eq: "name_after (item # items) r nm = name_after items r ?nm1"
        by (simp add: name_after_def)
      show ?case
      proof (cases "(k0, r) \<in> set items")
        case True
        from Cons.IH[OF True Cons.prems(2), of ?nm1] obtain k where
          "(k, r) \<in> set items" "material_name_for k = Some (name_after items r ?nm1)" by blast
        then have "(k, r) \<in> set (item # items) \<and>
            material_name_for k = Some (name_after (item # items) r nm)"
          unfolding eq by simp
        then show ?thesis by blast
      next
        case False
        with Cons.prems(1) have item: "item = (k0, r)" by simp
        then have nm1: "?nm1 = new" using Cons.prems(2) by simp
        from name_after_cases[of items r ?nm1] show ?thesis
        proof
          assume "name_after items r ?nm1 = ?nm1"
          then have "name_after (item # items) r nm = new" unfolding eq nm1 by simp
          then have "(k0, r) \<in> set (item # items) \<and>
            material_name_for k0 = Some (name_after (item # items) r nm)"
            using item Cons.prems(2) by simp
          then show ?thesis by blast
        next
          assume "\<exists>k. (k, r) \<in> set items \<and>
            material_name_for k = Some (name_after items r ?nm1)"
          then obtain k where "(k, r) \<in> set items"
            "material_name_for k = Some (name_after items r ?nm1)" by blast
          then have "(k, r) \<in> set (item # items) \<and>
            material_name_for k = Some (name_after (item # items) r nm)"
            unfolding eq by simp
          then show ?thesis by blast
        qed
      qed
    qed
    then obtain k where k: "(k, r) \<in> set items"
      "material_name_for k = Some (name_after items r nm)" by blast
    from k(1) assms(3) have "k = k0" by blast
    with k(2) assms(2) show ?thesis by simp
  qed
qed

lemma name_after_last:
  assumes "material_name_for k0 = Some new"
    and "\<forall>item\<in>set post. snd item = r \<longrightarrow> material_name_for (fst item) = None"
  shows "name_after (pre @ (k0, r) # post) r nm = new"
proof -
  have keep: "foldl (\<lambda>n item. if snd item = r
                      then (case material_name_for (fst item) of Some new \<Rightarrow> new | None \<Rightarrow> n)
                      else n) n0 post = n0" for n0
    using assms(2) by (induction post arbitrary: n0) auto
  show ?thesis by (simp add: name_after_def assms(1) keep)
qed

subsection \<open>The names of the surviving materials\<close>

text \<open>
  Claim C10 (as amended). Let the names of the images and the identities of the materials
  be distinct, let the host store a requested name that no other material has, and let no
  renaming ask for a name that another material has (\<open>no_name_clash\<close>: the name made from
  an image with a linked material is the name of no material but the first linked
  material of the image, and two images that give the same name have the same first
  linked material). The first linked material of an image is the first material, in the
  order of the collection, that uses nodes and has a \<open>TEX_IMAGE\<close> node for the image.
  After the pass, a material that is left in the scene either has the name it had before,
  or has the name \<open>M_<digits>\<close> of an image named \<open>T_<digits>\<close> (extension stripped) whose
  first linked material it is: a material that is the first linked material of no image of
  that form keeps its name. If \<open>r\<close> is the first linked material of an image of that form,
  no later image of that form has \<open>r\<close> as its first linked material, and \<open>r\<close> is still in the
  scene after the deletion phase, then \<open>r\<close> has the name \<open>M_<digits>\<close> of that image.
\<close>

theorem material_renamed:
  assumes dn: "distinct (map img_name (images sc))"
    and dm: "distinct (map mat_id (materials sc))"
    and host: "\<forall>used nm. nm \<notin> set used \<longrightarrow> id_name used nm = nm"
    and nc: "no_name_clash sc"
  shows "(\<forall>m'\<in>set (materials (fst (remove_duplicate_materials id_name sc))).
            \<exists>m\<in>set (materials sc). mat_id m = mat_id m' \<and>
              (mat_name m' = mat_name m \<or>
               (\<exists>i\<in>set (images sc). first_linked sc i = Some (mat_id m) \<and>
                   material_name_for (img_name i) = Some (mat_name m')))) \<and>
         (\<forall>a<length (images sc). \<forall>r new.
            first_linked sc (images sc ! a) = Some r \<and>
            material_name_for (img_name (images sc ! a)) = Some new \<and>
            (\<forall>b<length (images sc). a < b \<and> first_linked sc (images sc ! b) = Some r \<longrightarrow>
               material_name_for (img_name (images sc ! b)) = None) \<longrightarrow>
            (\<forall>m'\<in>set (materials (fst (remove_duplicate_materials id_name sc))).
                mat_id m' = r \<longrightarrow> mat_name m' = new))"
proof -
  define st1 where "st1 = material_phase1 sc"
  define sc1 where "sc1 = fst st1"
  define items where "items = fst (snd st1)"
  define del where "del = snd (snd st1)"
  define st2 where "st2 = foldl material_delete_step (sc1, []) (remdups del)"
  define sc2 where "sc2 = fst st2"
  define sc3 where "sc3 = foldl (rename_step id_name) sc2 items"
  have st1: "material_phase1 sc = (sc1, items, del)"
    by (simp only: sc1_def items_def del_def st1_def prod.collapse)
  have st2: "foldl material_delete_step (sc1, []) (remdups del) = (sc2, snd st2)"
    by (simp only: sc2_def st2_def prod.collapse)
  have res: "fst (remove_duplicate_materials id_name sc) = sc3"
    by (simp add: remove_duplicate_materials_def st1 st2 sc3_def)
  have m1: "materials sc1 = materials sc"
    using phase1_frame[of "(sc, [], [])" "images sc"]
    by (simp add: sc1_def st1_def material_phase1_def)
  have exact: "items = linked_items sc (images sc)"
    using phase1_items_exact[of "images sc" "(sc, [], [])" sc] dn
    by (simp add: items_def st1_def material_phase1_def)
  have sound: "\<exists>i\<in>set (images sc). fst item = img_name i \<and> first_linked sc i = Some (snd item)"
    if "item \<in> set items" for item
    using that unfolding exact linked_items_def by (auto split: option.splits)
  from phase2_filter[of "(sc1, [])" "remdups del"] obtain P where
    P: "materials sc2 = filter P (materials sc)"
    using m1 by (auto simp: sc2_def st2_def)
  have d2: "distinct (map mat_id (materials sc2))"
    unfolding P using dm by (rule distinct_map_filter)
  have cf: "clash_free (materials sc2) items"
    unfolding clash_free_def
  proof (intro ballI)
    fix item assume item: "item \<in> set items"
    from sound[OF item] obtain i where i: "i \<in> set (images sc)" "fst item = img_name i"
      "first_linked sc i = Some (snd item)" by blast
    show "case material_name_for (fst item) of
            None \<Rightarrow> True
          | Some new \<Rightarrow>
              (\<forall>m\<in>set (materials sc2). mat_name m = new \<longrightarrow> mat_id m = snd item) \<and>
              (\<forall>item'\<in>set items. material_name_for (fst item') = Some new \<longrightarrow>
                  snd item' = snd item)"
    proof (cases "material_name_for (fst item)")
      case None
      then show ?thesis by simp
    next
      case (Some new)
      have inew: "material_name_for (img_name i) = Some new" using Some i(2) by simp
      from bspec[OF nc[unfolded no_name_clash_def] i(1)]
      have "(\<forall>m\<in>set (materials sc). mat_name m = new \<longrightarrow> mat_id m = snd item) \<and>
            (\<forall>j\<in>set (images sc). material_name_for (img_name j) = Some new \<longrightarrow>
                  first_linked sc j = None \<or> first_linked sc j = Some (snd item))"
        by (simp only: i(3) inew option.case)
      then have
        a: "\<forall>m\<in>set (materials sc). mat_name m = new \<longrightarrow> mat_id m = snd item"
        and b: "\<forall>j\<in>set (images sc). material_name_for (img_name j) = Some new \<longrightarrow>
                  first_linked sc j = None \<or> first_linked sc j = Some (snd item)"
        by (rule conjunct1, rule conjunct2)
      have "\<forall>m\<in>set (materials sc2). mat_name m = new \<longrightarrow> mat_id m = snd item"
        using a by (simp add: P)
      moreover have "snd item' = snd item"
        if "item' \<in> set items" "material_name_for (fst item') = Some new" for item'
      proof -
        from sound[OF that(1)] obtain j where j: "j \<in> set (images sc)" "fst item' = img_name j"
          "first_linked sc j = Some (snd item')" by blast
        with b that(2) show ?thesis by force
      qed
      ultimately show ?thesis by (simp add: Some)
    qed
  qed
  have names: "map (\<lambda>m. (mat_id m, mat_name m)) (materials sc3) =
         map (\<lambda>m. (mat_id m, name_after items (mat_id m) (mat_name m))) (materials sc2)"
    unfolding sc3_def by (rule phase3_names[OF d2 _ cf]) (use host in blast)
  have surv: "\<exists>m\<in>set (materials sc). mat_id m = mat_id m' \<and>
                mat_name m' = name_after items (mat_id m) (mat_name m)"
    if "m' \<in> set (materials sc3)" for m'
  proof -
    from that have "(mat_id m', mat_name m') \<in> set (map (\<lambda>m. (mat_id m, mat_name m)) (materials sc3))"
      by (simp add: image_iff) blast
    then have "(mat_id m', mat_name m') \<in>
        set (map (\<lambda>m. (mat_id m, name_after items (mat_id m) (mat_name m))) (materials sc2))"
      by (simp only: names)
    then obtain m where "m \<in> set (materials sc2)" "mat_id m' = mat_id m"
      "mat_name m' = name_after items (mat_id m) (mat_name m)" by auto
    moreover from this(1) have "m \<in> set (materials sc)" by (simp add: P)
    ultimately show ?thesis by auto
  qed
  show ?thesis unfolding res
  proof (intro conjI ballI allI impI)
    fix m' assume "m' \<in> set (materials sc3)"
    from surv[OF this] obtain m where m: "m \<in> set (materials sc)" "mat_id m = mat_id m'"
      "mat_name m' = name_after items (mat_id m) (mat_name m)" by blast
    from name_after_cases[of items "mat_id m" "mat_name m"]
    have "mat_name m' = mat_name m \<or>
          (\<exists>i\<in>set (images sc). first_linked sc i = Some (mat_id m) \<and>
              material_name_for (img_name i) = Some (mat_name m'))"
    proof
      assume "name_after items (mat_id m) (mat_name m) = mat_name m"
      with m(3) show ?thesis by simp
    next
      assume "\<exists>k. (k, mat_id m) \<in> set items \<and>
        material_name_for k = Some (name_after items (mat_id m) (mat_name m))"
      then obtain k where k: "(k, mat_id m) \<in> set items"
        "material_name_for k = Some (mat_name m')" using m(3) by auto
      from sound[OF k(1)] obtain i where "i \<in> set (images sc)" "k = img_name i"
        "first_linked sc i = Some (mat_id m)" by auto
      with k(2) show ?thesis by blast
    qed
    with m(1,2) show "\<exists>m\<in>set (materials sc). mat_id m = mat_id m' \<and>
              (mat_name m' = mat_name m \<or>
               (\<exists>i\<in>set (images sc). first_linked sc i = Some (mat_id m) \<and>
                   material_name_for (img_name i) = Some (mat_name m')))" by blast
  next
    fix a r new m'
    assume a: "a < length (images sc)"
      and h: "first_linked sc (images sc ! a) = Some r \<and>
            material_name_for (img_name (images sc ! a)) = Some new \<and>
            (\<forall>b<length (images sc). a < b \<and> first_linked sc (images sc ! b) = Some r \<longrightarrow>
               material_name_for (img_name (images sc ! b)) = None)"
      and m': "m' \<in> set (materials sc3)" and r: "mat_id m' = r"
    from surv[OF m'] obtain m where m: "m \<in> set (materials sc)" "mat_id m = mat_id m'"
      "mat_name m' = name_after items (mat_id m) (mat_name m)" by blast
    let ?pre = "linked_items sc (take a (images sc))"
    let ?post = "linked_items sc (drop (Suc a) (images sc))"
    have "images sc = take a (images sc) @ [images sc ! a] @ drop (Suc a) (images sc)"
      using a by (simp add: id_take_nth_drop)
    then have "items = linked_items sc (take a (images sc) @ [images sc ! a] @ drop (Suc a) (images sc))"
      using exact by simp
    then have split: "items = ?pre @ (img_name (images sc ! a), r) # ?post"
      using h by (simp add: linked_items_append) (simp add: linked_items_def)
    have post: "\<forall>item\<in>set ?post. snd item = r \<longrightarrow> material_name_for (fst item) = None"
    proof (intro ballI impI)
      fix item assume item: "item \<in> set ?post" and sr: "snd item = r"
      then obtain i where i: "i \<in> set (drop (Suc a) (images sc))" "fst item = img_name i"
        "first_linked sc i = Some (snd item)"
        unfolding linked_items_def by (auto split: option.splits)
      from i(1) obtain n where n: "i = drop (Suc a) (images sc) ! n"
        "n < length (drop (Suc a) (images sc))"
        by (auto simp: in_set_conv_nth)
      then have "i = images sc ! (Suc a + n)" and "Suc a + n < length (images sc)" by auto
      with h i(3) sr have "material_name_for (img_name i) = None" by auto
      with i(2) show "material_name_for (fst item) = None" by simp
    qed
    have "name_after items r (mat_name m) = new"
      unfolding split by (rule name_after_last[OF _ post]) (use h in simp)
    with m r show "mat_name m' = new" by simp
  qed
qed

text \<open>
  The theorem at a single material with nodes for both images \<open>T_1.png\<close> and \<open>T_2.png\<close>: it
  is the first linked material of both, and ends with the name made from the later one.
\<close>

lemma numbered_run:
  "remove_duplicate_materials suffix_name (numbered_images [tex_material 1 ''m'' [1, 2]]) =
     (numbered_images [tex_material 1 ''M_2'' [1, 2]], [])"
  by (simp add: material_run_defs)

theorem material_renamed_witness:
  "first_linked (numbered_images [tex_material 1 ''m'' [1, 2]])
     (images (numbered_images [tex_material 1 ''m'' [1, 2]]) ! 1) = Some 1 \<and>
   material_name_for
     (img_name (images (numbered_images [tex_material 1 ''m'' [1, 2]]) ! 1)) = Some ''M_2'' \<and>
   mat_name (hd (materials (fst (remove_duplicate_materials suffix_name
     (numbered_images [tex_material 1 ''m'' [1, 2]]))))) = ''M_2''"
proof -
  let ?sc = "numbered_images [tex_material 1 ''m'' [1, 2]]"
  let ?m' = "hd (materials (fst (remove_duplicate_materials suffix_name ?sc)))"
  have h1: "distinct (map img_name (images ?sc))"
    by (simp add: numbered_images_def material_scene_def packed_image_def)
  have h2: "distinct (map mat_id (materials ?sc))"
    by (simp add: numbered_images_def material_scene_def tex_material_def)
  have h3: "\<forall>used nm. nm \<notin> set used \<longrightarrow> suffix_name used nm = nm"
    by (simp add: suffix_name_def)
  have h4: "no_name_clash ?sc"
    by (simp add: no_name_clash_def first_linked_def material_run_defs)
  have h5: "1 < length (images ?sc)"
    by (simp add: numbered_images_def material_scene_def)
  have h6: "first_linked ?sc (images ?sc ! 1) = Some 1"
    by (simp add: first_linked_def material_run_defs)
  have h7: "material_name_for (img_name (images ?sc ! 1)) = Some ''M_2''"
    by (simp add: material_run_defs)
  have h8: "\<forall>b<length (images ?sc). 1 < b \<and> first_linked ?sc (images ?sc ! b) = Some 1 \<longrightarrow>
               material_name_for (img_name (images ?sc ! b)) = None"
    by (simp add: numbered_images_def material_scene_def)
  have h9: "?m' \<in> set (materials (fst (remove_duplicate_materials suffix_name ?sc)))"
    unfolding numbered_run by (simp add: numbered_images_def material_scene_def)
  have h10: "mat_id ?m' = 1"
    unfolding numbered_run by (simp add: numbered_images_def material_scene_def tex_material_def)
  from material_renamed[OF h1 h2 h3 h4] h5 h6 h7 h8 h9 h10 have "mat_name ?m' = ''M_2''" by blast
  with h6 h7 show ?thesis by simp
qed

text \<open>
  Claim C10 as stated renames the first linked material of every image of that form to the
  name made from the image. With the materials \<open>m1\<close> (on \<open>T_1.png\<close>) and \<open>m2\<close> (on both
  images), \<open>m2\<close> is the first linked material of \<open>T_2.png\<close>, but it is also a duplicate for
  \<open>T_1.png\<close> and phase 2 deletes it: no material is named \<open>M_2\<close>. With a single material on
  both images, the material is renamed for \<open>T_1.png\<close> and again for \<open>T_2.png\<close>: it ends as
  \<open>M_2\<close>, not \<open>M_1\<close>. With a material without nodes that is named \<open>M_1\<close> already, the first
  linked material of \<open>T_1.png\<close> asks for a name in use and gets a suffixed one.
\<close>

theorem material_renamed_counterexample:
  "remove_duplicate_materials suffix_name
     (numbered_images [tex_material 1 ''m1'' [1], tex_material 2 ''m2'' [1, 2]]) =
     (numbered_images [tex_material 1 ''M_1'' [1]], [Removed ''m2'']) \<and>
   remove_duplicate_materials suffix_name (numbered_images [tex_material 1 ''m'' [1, 2]]) =
     (numbered_images [tex_material 1 ''M_2'' [1, 2]], []) \<and>
   remove_duplicate_materials suffix_name
     (numbered_images [(tex_material 1 ''M_1'' [])\<lparr>use_nodes := False\<rparr>, tex_material 2 ''wall'' [1]]) =
     (numbered_images [(tex_material 1 ''M_1'' [])\<lparr>use_nodes := False\<rparr>,
                       tex_material 2 ''M_1.001'' [1]], [])"
  by (simp add: material_run_defs)

section \<open>Proofs: the survivor of a group\<close>

subsection \<open>The groups of images\<close>

lemma map_of_group_add:
  "map_of (group_add k v gs) =
     (map_of gs)(k \<mapsto> (case map_of gs k of None \<Rightarrow> [v] | Some vs \<Rightarrow> vs @ [v]))"
proof (induction gs)
  case Nil
  show ?case by simp
next
  case (Cons a gs)
  obtain k' vs where a: "a = (k', vs)" by (cases a)
  show ?case
  proof (cases "k = k'")
    case True
    then show ?thesis by (auto simp: a fun_eq_iff)
  next
    case False
    then show ?thesis by (auto simp: a Cons.IH fun_eq_iff)
  qed
qed

lemma keys_group_add:
  "map fst (group_add k v gs) = (if k \<in> set (map fst gs) then map fst gs else map fst gs @ [k])"
  by (induction gs) (auto split: if_splits)

lemma distinct_group_add:
  "distinct (map fst gs) \<Longrightarrow> distinct (map fst (group_add k v gs))"
  unfolding keys_group_add by simp

lemma hash_step_key:
  "hash_step md5 gs img = (case image_key md5 img of None \<Rightarrow> gs | Some h \<Rightarrow> group_add h img gs)"
  by (simp add: hash_step_def image_key_def split: option.splits)

lemma groups_inv_step:
  assumes "groups_inv md5 xs gs"
  shows "groups_inv md5 (xs @ [x]) (hash_step md5 gs x)"
proof (cases "image_key md5 x")
  case None
  then show ?thesis using assms by (simp add: groups_inv_def hash_step_key)
next
  case (Some k)
  have d: "distinct (map fst (group_add k x gs))"
    using assms by (simp add: groups_inv_def distinct_group_add)
  have m: "map_of gs h =
            (if filter (\<lambda>i. image_key md5 i = Some h) xs = [] then None
             else Some (filter (\<lambda>i. image_key md5 i = Some h) xs))" for h
    using assms by (simp add: groups_inv_def)
  have "map_of (group_add k x gs) h =
            (if filter (\<lambda>i. image_key md5 i = Some h) (xs @ [x]) = [] then None
             else Some (filter (\<lambda>i. image_key md5 i = Some h) (xs @ [x])))" for h
    unfolding map_of_group_add using m[of h] m[of k] Some by auto
  then show ?thesis using d by (simp add: groups_inv_def hash_step_key Some)
qed

lemma groups_inv_fold:
  "groups_inv md5 seen gs \<Longrightarrow> groups_inv md5 (seen @ xs) (foldl (hash_step md5) gs xs)"
proof (induction xs arbitrary: seen gs)
  case Nil
  then show ?case by simp
next
  case (Cons x xs)
  from Cons.IH[OF groups_inv_step[OF Cons.prems], of x] show ?case by simp
qed

lemma image_groups_filter:
  assumes "(h, imgs) \<in> set (image_groups md5 sc)"
  shows "imgs = filter (\<lambda>i. image_key md5 i = Some h) (images sc) \<and> imgs \<noteq> []"
proof -
  have "groups_inv md5 [] []" by (simp add: groups_inv_def)
  from groups_inv_fold[OF this, of "images sc"]
  have inv: "groups_inv md5 (images sc) (image_groups md5 sc)" by (simp add: image_groups_def)
  then have "distinct (map fst (image_groups md5 sc))" by (simp add: groups_inv_def)
  then have "map_of (image_groups md5 sc) h = Some imgs"
    using assms by (rule map_of_is_SomeI)
  moreover have "map_of (image_groups md5 sc) h =
            (if filter (\<lambda>i. image_key md5 i = Some h) (images sc) = [] then None
             else Some (filter (\<lambda>i. image_key md5 i = Some h) (images sc)))"
    using inv by (simp add: groups_inv_def)
  ultimately show ?thesis by (simp split: if_splits)
qed

lemma group_step_hd:
  "imgs \<noteq> [] \<Longrightarrow> group_step st (h, imgs) = foldl (relink_step (hd imgs)) st (tl imgs)"
  by (cases imgs; cases "tl imgs") (auto simp: group_step_def)

lemma material_step_first:
  assumes "materials (fst st) = materials sc"
  shows "material_step st img =
           (case linked_materials sc (img_id img) of
              [] \<Rightarrow> st
            | first_material # duplicates \<Rightarrow>
                (foldl (\<lambda>s duplicate_material.
                          replace_material (mat_id duplicate_material) (mat_id first_material) s)
                   (fst st) duplicates,
                 dict_set (img_name img) (mat_id first_material) (fst (snd st)),
                 snd (snd st) @ map mat_id duplicates))"
proof -
  have "linked_materials (fst st) (img_id img) = linked_materials sc (img_id img)"
    by (rule linked_materials_cong[OF assms])
  then show ?thesis by (cases st) (simp add: material_step_def split: list.splits)
qed

subsection \<open>The survivor is the first member met\<close>

text \<open>
  Claim C6. In each pass that removes duplicates, the block that stands for a group is the
  first member of the group in the enumeration order of the collection, and it is a
  function of the scene at the start and of that order alone, so a run on the same input
  chooses the same block.

  Meshes (with distinct identities): after the first loop a lookup in the dictionary gives
  the first mesh of \<open>bpy.data.meshes\<close> that is in use and has a key equal to the given one
  (the equality of the dictionary, \<open>key_eq\<close>), and the objects
  are those of the start with the data of every object repointed to that mesh (meshes
  without users are skipped by the loop and belong to no group).
  Images: the list filed under a key holds exactly the images of \<open>bpy.data.images\<close> with that
  key, in order, and the second loop relinks every later image of the list to the head.
  Materials: when the loop reaches the \<open>k\<close>-th image, the material that replaces the others
  and is recorded for the image is the first material of \<open>bpy.data.materials\<close>, as enumerated
  at the start, that is linked to the image; the other linked materials are queued.
\<close>

theorem survivor_first_encountered:
  "(distinct (map mesh_id (meshes sc)) \<longrightarrow>
      dict_get (mesh_data_blocks (mesh_first_pass sc)) g =
        find (\<lambda>m. mesh_users sc m \<noteq> 0 \<and> key_eq (geom_hash m) g) (meshes sc) \<and>
      objects (ml_scene (mesh_first_pass sc)) = repointed sc (meshes sc)) \<and>
   ((h, imgs) \<in> set (image_groups md5 si) \<longrightarrow>
      imgs = filter (\<lambda>i. image_key md5 i = Some h) (images si) \<and> imgs \<noteq> [] \<and>
      group_step st (h, imgs) = foldl (relink_step (hd imgs)) st (tl imgs)) \<and>
   (k < length (images sm) \<longrightarrow>
      material_step (foldl material_step (sm, [], []) (take k (images sm))) (images sm ! k) =
        (case linked_materials sm (img_id (images sm ! k)) of
           [] \<Rightarrow> foldl material_step (sm, [], []) (take k (images sm))
         | first_material # duplicates \<Rightarrow>
             (foldl (\<lambda>s duplicate_material.
                       replace_material (mat_id duplicate_material) (mat_id first_material) s)
                (fst (foldl material_step (sm, [], []) (take k (images sm)))) duplicates,
              dict_set (img_name (images sm ! k)) (mat_id first_material)
                (fst (snd (foldl material_step (sm, [], []) (take k (images sm))))),
              snd (snd (foldl material_step (sm, [], []) (take k (images sm)))) @
                map mat_id duplicates)))"
proof (intro conjI impI)
  assume d: "distinct (map mesh_id (meshes sc))"
  from mesh_inv_first_pass[OF d]
  have "dict_get (mesh_data_blocks (mesh_first_pass sc)) g = source_of sc (meshes sc) g"
    unfolding mesh_inv_def by blast
  then show "dict_get (mesh_data_blocks (mesh_first_pass sc)) g =
        find (\<lambda>m. mesh_users sc m \<noteq> 0 \<and> key_eq (geom_hash m) g) (meshes sc)"
    by (simp add: source_of_def)
  from mesh_inv_first_pass[OF d]
  show "objects (ml_scene (mesh_first_pass sc)) = repointed sc (meshes sc)"
    by (simp add: mesh_inv_def)
next
  assume a: "(h, imgs) \<in> set (image_groups md5 si)"
  from image_groups_filter[OF a]
  show "imgs = filter (\<lambda>i. image_key md5 i = Some h) (images si)" by (rule conjunct1)
  from image_groups_filter[OF a]
  show ne: "imgs \<noteq> []" by (rule conjunct2)
  show "group_step st (h, imgs) = foldl (relink_step (hd imgs)) st (tl imgs)"
    by (rule group_step_hd[OF ne])
next
  assume "k < length (images sm)"
  have "materials (fst (foldl material_step (sm, [], []) (take k (images sm)))) = materials sm"
    using phase1_frame[of "(sm, [], [])" "take k (images sm)"] by simp
  then show "material_step (foldl material_step (sm, [], []) (take k (images sm))) (images sm ! k) =
        (case linked_materials sm (img_id (images sm ! k)) of
           [] \<Rightarrow> foldl material_step (sm, [], []) (take k (images sm))
         | first_material # duplicates \<Rightarrow>
             (foldl (\<lambda>s duplicate_material.
                       replace_material (mat_id duplicate_material) (mat_id first_material) s)
                (fst (foldl material_step (sm, [], []) (take k (images sm)))) duplicates,
              dict_set (img_name (images sm ! k)) (mat_id first_material)
                (fst (snd (foldl material_step (sm, [], []) (take k (images sm))))),
              snd (snd (foldl material_step (sm, [], []) (take k (images sm)))) @
                map mat_id duplicates))"
    by (rule material_step_first)
qed

text \<open>
  The theorem at two equal triangles, at two images with the same pixels, and at the
  second image of the chain of three materials.
\<close>

theorem survivor_first_encountered_witness:
  "dict_get (mesh_data_blocks (mesh_first_pass (two_meshes [(0, 0, 0), (1, 0, 0), (0, 1, 0)] 0)))
     (geom_hash (tri_mesh 2 ''Cube.001'' [(0, 0, 0), (1, 0, 0), (0, 1, 0)] 0)) =
     Some (tri_mesh 1 ''Cube'' [(0, 0, 0), (1, 0, 0), (0, 1, 0)] 0) \<and>
   map obj_data (objects (ml_scene (mesh_first_pass
     (two_meshes [(0, 0, 0), (1, 0, 0), (0, 1, 0)] 0)))) = [Some 1, Some 1] \<and>
   (''c4ca'', [packed_image 1 ''T_1.png'' 1 ''//textures/T_1.png'',
               packed_image 2 ''T_1.png.001'' 1 ''//textures/copy.png''])
     \<in> set (image_groups md5_example dup_images) \<and>
   snd (group_step (dup_images, [])
     (''c4ca'', [packed_image 1 ''T_1.png'' 1 ''//textures/T_1.png'',
                 packed_image 2 ''T_1.png.001'' 1 ''//textures/copy.png''])) = [2] \<and>
   map (map nd_image \<circ> nodes_of) (materials (fst (group_step (dup_images, [])
     (''c4ca'', [packed_image 1 ''T_1.png'' 1 ''//textures/T_1.png'',
                 packed_image 2 ''T_1.png.001'' 1 ''//textures/copy.png''])))) = [[Some 1]] \<and>
   snd (material_step
          (foldl material_step
             (chain [tex_material 1 ''m1'' [1], tex_material 2 ''m2'' [1, 2], tex_material 3 ''m3'' [2]]
                [Some 1, Some 2, Some 3], [], [])
             (take 1 (images (chain [tex_material 1 ''m1'' [1], tex_material 2 ''m2'' [1, 2],
                                     tex_material 3 ''m3'' [2]] [Some 1, Some 2, Some 3]))))
          (images (chain [tex_material 1 ''m1'' [1], tex_material 2 ''m2'' [1, 2],
                          tex_material 3 ''m3'' [2]] [Some 1, Some 2, Some 3]) ! 1)) =
     ([(''wall.png'', 1), (''roof.png'', 2)], [2, 3])"
proof -
  let ?cs = "[(0, 0, 0), (1, 0, 0), (0, 1, 0)] :: (real \<times> real \<times> real) list"
  let ?sc = "two_meshes ?cs 0"
  let ?g = "geom_hash (tri_mesh 2 ''Cube.001'' ?cs 0)"
  let ?imgs = "[packed_image 1 ''T_1.png'' 1 ''//textures/T_1.png'',
                packed_image 2 ''T_1.png.001'' 1 ''//textures/copy.png'']"
  let ?sm = "chain [tex_material 1 ''m1'' [1], tex_material 2 ''m2'' [1, 2], tex_material 3 ''m3'' [2]]
                [Some 1, Some 2, Some 3]"
  let ?st = "foldl material_step (?sm, [], []) (take 1 (images ?sm))"
  note t = survivor_first_encountered[where sc = ?sc and g = ?g and h = "''c4ca''" and imgs = ?imgs
      and ?md5.0 = md5_example and si = dup_images and st = "(dup_images, [])" and k = 1 and sm = ?sm]
  have h1: "distinct (map mesh_id (meshes ?sc))"
    by (simp add: two_meshes_def mesh_pair_def tri_mesh_def float_mesh_def)
  have h2: "(''c4ca'', ?imgs) \<in> set (image_groups md5_example dup_images)"
    by (simp add: image_run_defs dup_images_def md5_example_def)
  have h3: "1 < length (images ?sm)" by (simp add: chain_def material_scene_def)
  from t h1 have m1: "dict_get (mesh_data_blocks (mesh_first_pass ?sc)) ?g =
        find (\<lambda>m. mesh_users ?sc m \<noteq> 0 \<and> key_eq (geom_hash m) ?g) (meshes ?sc)"
    and m2: "objects (ml_scene (mesh_first_pass ?sc)) = repointed ?sc (meshes ?sc)"
    by blast+
  from t h2 have i: "group_step (dup_images, []) (''c4ca'', ?imgs) =
      foldl (relink_step (hd ?imgs)) (dup_images, []) (tl ?imgs)"
    by blast
  from t h3 have s: "material_step ?st (images ?sm ! 1) =
        (case linked_materials ?sm (img_id (images ?sm ! 1)) of
           [] \<Rightarrow> ?st
         | first_material # duplicates \<Rightarrow>
             (foldl (\<lambda>s duplicate_material.
                       replace_material (mat_id duplicate_material) (mat_id first_material) s)
                (fst ?st) duplicates,
              dict_set (img_name (images ?sm ! 1)) (mat_id first_material) (fst (snd ?st)),
              snd (snd ?st) @ map mat_id duplicates))"
    by blast
  have c1: "dict_get (mesh_data_blocks (mesh_first_pass ?sc)) ?g = Some (tri_mesh 1 ''Cube'' ?cs 0)"
    unfolding m1
    by (simp add: two_meshes_def mesh_pair_def tri_mesh_def float_mesh_def mesh_users_def
        geom_hash_def key_eq_def co_eq_def float_eq_def)
  have c2: "map obj_data (objects (ml_scene (mesh_first_pass ?sc))) = [Some 1, Some 1]"
    unfolding m2
    by (simp add: repointed_def repoint_def source_of_def two_meshes_def mesh_pair_def
        tri_mesh_def float_mesh_def mesh_users_def geom_hash_def key_eq_def co_eq_def
        float_eq_def)
  have c3: "snd (group_step (dup_images, []) (''c4ca'', ?imgs)) = [2]"
    unfolding i by (simp add: image_run_defs dup_images_def)
  have c4: "map (map nd_image \<circ> nodes_of) (materials (fst (group_step (dup_images, [])
     (''c4ca'', ?imgs)))) = [[Some 1]]"
    unfolding i by (simp add: image_run_defs dup_images_def)
  have c5: "snd (material_step ?st (images ?sm ! 1)) =
     ([(''wall.png'', 1), (''roof.png'', 2)], [2, 3])"
    unfolding s by (simp add: material_run_defs)
  from c1 c2 h2 c3 c4 c5 show ?thesis by (intro conjI)
qed

section \<open>Proofs: no reference to a deleted block\<close>

text \<open>
  The loops that rewrite references delete nothing, and each deletion of the host unlinks
  the block it deletes, so the deletion loops keep \<open>no_dangling\<close>.
\<close>

lemma no_dangling_iff:
  "no_dangling A ids refs \<longleftrightarrow> (\<forall>r. Some r \<in> set refs \<longrightarrow> r \<in> A \<longrightarrow> r \<in> ids)"
  unfolding no_dangling_def by (auto split: option.splits)

subsection \<open>Meshes\<close>

lemma mesh_step_meshes: "meshes (ml_scene (mesh_step st m)) = meshes (ml_scene st)"
  by (simp add: mesh_step_def replace_mesh_def Let_def split: option.splits)

lemma mesh_fold_meshes: "meshes (ml_scene (foldl mesh_step st ms)) = meshes (ml_scene st)"
  by (induction ms arbitrary: st) (simp_all add: mesh_step_meshes)

lemma mesh_first_pass_meshes: "meshes (ml_scene (mesh_first_pass sc)) = meshes sc"
  by (simp add: mesh_first_pass_def mesh_fold_meshes)

lemma remove_mesh_refs:
  assumes "no_dangling A (mesh_id ` set (meshes s)) (mesh_refs s)"
  shows "no_dangling A (mesh_id ` set (meshes (remove_mesh me s))) (mesh_refs (remove_mesh me s))"
  unfolding no_dangling_iff
proof (intro allI impI)
  fix r assume a: "Some r \<in> set (mesh_refs (remove_mesh me s))" and b: "r \<in> A"
  from a have r: "Some r \<in> set (mesh_refs s)" and ne: "r \<noteq> mesh_id me"
    by (auto simp: mesh_refs_def remove_mesh_def)
  from assms r b have "r \<in> mesh_id ` set (meshes s)" by (simp add: no_dangling_iff)
  then obtain m where "m \<in> set (meshes s)" "mesh_id m = r" by auto
  with ne have "m \<in> set (meshes (remove_mesh me s))" by (simp add: remove_mesh_def)
  with \<open>mesh_id m = r\<close> show "r \<in> mesh_id ` set (meshes (remove_mesh me s))" by auto
qed

lemma mesh_delete_step_refs:
  assumes "no_dangling A (mesh_id ` set (meshes (fst st))) (mesh_refs (fst st))"
  shows "no_dangling A (mesh_id ` set (meshes (fst (mesh_delete_step st n))))
           (mesh_refs (fst (mesh_delete_step st n)))"
proof (cases st)
  case (Pair s reps)
  show ?thesis
  proof (cases "get_mesh s n")
    case None
    then show ?thesis using assms Pair by (simp add: mesh_delete_step_def)
  next
    case (Some me)
    have "fst (mesh_delete_step st n) = remove_mesh me s"
      by (simp add: Pair mesh_delete_step_def Some)
    then show ?thesis using remove_mesh_refs[of A s me] assms Pair by simp
  qed
qed

lemma mesh_delete_fold_refs:
  assumes "no_dangling A (mesh_id ` set (meshes (fst st))) (mesh_refs (fst st))"
  shows "no_dangling A (mesh_id ` set (meshes (fst (foldl mesh_delete_step st ns))))
           (mesh_refs (fst (foldl mesh_delete_step st ns)))"
  using assms
proof (induction ns arbitrary: st)
  case Nil
  then show ?case by simp
next
  case (Cons n ns)
  from Cons.IH[OF mesh_delete_step_refs[OF Cons.prems]] show ?case by simp
qed

lemma no_dangling_all: "A \<subseteq> ids \<Longrightarrow> no_dangling A ids refs"
  by (auto simp: no_dangling_iff)

lemma mesh_pass_refs:
  "no_dangling (mesh_id ` set (meshes sc))
     (mesh_id ` set (meshes (fst (remove_duplicate_meshes sc))))
     (mesh_refs (fst (remove_duplicate_meshes sc)))"
proof -
  let ?st = "(ml_scene (mesh_first_pass sc), ml_reports (mesh_first_pass sc))"
  have "no_dangling (mesh_id ` set (meshes sc)) (mesh_id ` set (meshes (fst ?st))) (mesh_refs (fst ?st))"
    by (rule no_dangling_all) (simp add: mesh_first_pass_meshes)
  from mesh_delete_fold_refs[OF this, of "mesh_names_to_delete (mesh_first_pass sc)"]
  show ?thesis
    by (simp add: remove_duplicate_meshes_def Let_def split_beta)
qed

subsection \<open>Images\<close>

lemma nodes_of_map:
  "nodes_of (m\<lparr>node_tree := map_option (map f) (node_tree m)\<rparr>) = map f (nodes_of m)"
  by (cases "node_tree m") (simp_all add: nodes_of_def)

lemma remove_image_refs:
  assumes "no_dangling A (img_id ` set (images s)) (image_refs s)"
  shows "no_dangling A (img_id ` set (images (remove_image x s))) (image_refs (remove_image x s))"
  unfolding no_dangling_iff
proof (intro allI impI)
  fix r assume a: "Some r \<in> set (image_refs (remove_image x s))" and b: "r \<in> A"
  from a obtain m nd where m: "m \<in> set (materials s)" and nd: "nd \<in> set (nodes_of m)"
    and e: "Some r = nd_image (if nd_image nd = Some x then nd\<lparr>nd_image := None\<rparr> else nd)"
    by (auto simp: image_refs_def remove_image_def nodes_of_map)
  from e have ne: "r \<noteq> x" and e': "nd_image nd = Some r" by (auto split: if_splits)
  from m nd e' have "Some r \<in> set (image_refs s)" by (force simp: image_refs_def)
  with assms b have "r \<in> img_id ` set (images s)" by (simp add: no_dangling_iff)
  then obtain i where "i \<in> set (images s)" "img_id i = r" by auto
  with ne have "i \<in> set (images (remove_image x s))" by (simp add: remove_image_def)
  with \<open>img_id i = r\<close> show "r \<in> img_id ` set (images (remove_image x s))" by auto
qed

lemma image_delete_step_refs:
  assumes "no_dangling A (img_id ` set (images (fst st))) (image_refs (fst st))"
  shows "no_dangling A (img_id ` set (images (fst (image_delete_step st x))))
           (image_refs (fst (image_delete_step st x)))"
proof (cases st)
  case (Pair s reps)
  show ?thesis
  proof (cases "image_of s x")
    case None
    then show ?thesis using assms Pair by (simp add: image_delete_step_def)
  next
    case (Some img)
    show ?thesis
    proof (cases "image_users s img = 0")
      case True
      have "fst (image_delete_step st x) = remove_image x s"
        by (simp add: Pair image_delete_step_def Some True)
      then show ?thesis using remove_image_refs[of A s x] assms Pair by simp
    next
      case False
      have "fst (image_delete_step st x) = s"
        using False by (simp add: Pair image_delete_step_def Some)
      then show ?thesis using assms Pair by simp
    qed
  qed
qed

lemma image_delete_fold_refs:
  assumes "no_dangling A (img_id ` set (images (fst st))) (image_refs (fst st))"
  shows "no_dangling A (img_id ` set (images (fst (foldl image_delete_step st xs))))
           (image_refs (fst (foldl image_delete_step st xs)))"
  using assms
proof (induction xs arbitrary: st)
  case Nil
  then show ?case by simp
next
  case (Cons x xs)
  from Cons.IH[OF image_delete_step_refs[OF Cons.prems]] show ?case by simp
qed

lemma relink_step_images: "images (fst (relink_step orig st d)) = images (fst st)"
  by (cases st) (simp add: relink_step_def relink_def)

lemma relink_fold_images: "images (fst (foldl (relink_step orig) st ds)) = images (fst st)"
  by (induction ds arbitrary: st) (simp_all add: relink_step_images)

lemma group_step_images: "images (fst (group_step st g)) = images (fst st)"
  by (simp add: group_step_def relink_fold_images relink_step_images split: list.splits)

lemma group_fold_images: "images (fst (foldl group_step st gs)) = images (fst st)"
  by (induction gs arbitrary: st) (simp_all add: group_step_images)

lemma rename_image_ids: "map img_id (images (rename_image r nm s)) = map img_id (images s)"
proof -
  have "map (img_id \<circ> (\<lambda>i. if img_id i = r then i\<lparr>img_name := nm\<rparr> else i)) xs = map img_id xs" for xs
    by (rule map_cong) simp_all
  then show ?thesis by (simp add: rename_image_def)
qed

lemma clean_image_frame:
  "map img_id (images (clean_image id_name s r)) = map img_id (images s) \<and>
   materials (clean_image id_name s r) = materials s"
  by (simp add: clean_image_def rename_image_ids split: option.splits) (simp add: rename_image_def)

lemma clean_fold_frame:
  "map img_id (images (foldl (clean_image id_name) s rs)) = map img_id (images s) \<and>
   materials (foldl (clean_image id_name) s rs) = materials s"
  by (induction rs arbitrary: s) (simp_all add: clean_image_frame)

lemma ids_clean_paths:
  "img_id ` set (images (rename_image_paths s)) = img_id ` set (images s)"
  "img_id ` set (images (clean_image_names id_name s)) = img_id ` set (images s)"
  "image_refs (rename_image_paths s) = image_refs s"
  "image_refs (clean_image_names id_name s) = image_refs s"
proof -
  have "map (img_id \<circ> (\<lambda>img. if packed_file img then img\<lparr>filepath := img_name img\<rparr> else img)) xs =
        map img_id xs" for xs
    by (rule map_cong) simp_all
  then have "map img_id (images (rename_image_paths s)) = map img_id (images s)"
    by (simp add: rename_image_paths_def)
  then have "set (map img_id (images (rename_image_paths s))) = set (map img_id (images s))"
    by (rule arg_cong)
  then show "img_id ` set (images (rename_image_paths s)) = img_id ` set (images s)"
    by (simp only: set_map)
  have "map img_id (images (clean_image_names id_name s)) = map img_id (images s)"
    by (simp add: clean_image_names_def clean_fold_frame)
  then have "set (map img_id (images (clean_image_names id_name s))) = set (map img_id (images s))"
    by (rule arg_cong)
  then show "img_id ` set (images (clean_image_names id_name s)) = img_id ` set (images s)"
    by (simp only: set_map)
  show "image_refs (rename_image_paths s) = image_refs s"
    by (simp add: image_refs_def rename_image_paths_def)
  show "image_refs (clean_image_names id_name s) = image_refs s"
    by (simp add: image_refs_def clean_image_names_def clean_fold_frame)
qed

lemma image_pass_refs:
  "no_dangling (img_id ` set (images sc))
     (img_id ` set (images (fst (remove_duplicate_images id_name md5 sc))))
     (image_refs (fst (remove_duplicate_images id_name md5 sc)))"
proof (cases "list_ex (\<lambda>g. 1 < length (snd g)) (image_groups md5 sc)")
  case False
  then have "fst (remove_duplicate_images id_name md5 sc) = sc"
    by (simp add: remove_duplicate_images_def Let_def)
  then show ?thesis by (simp add: no_dangling_all)
next
  case True
  define st where "st = foldl group_step (sc, []) (image_groups md5 sc)"
  define st2 where "st2 = foldl image_delete_step (fst st, []) (snd st)"
  have r: "fst (remove_duplicate_images id_name md5 sc) = rename_image_paths (clean_image_names id_name (fst st2))"
    using True by (simp add: remove_duplicate_images_def Let_def split_beta st_def st2_def)
  have "images (fst st) = images sc" by (simp add: st_def group_fold_images)
  then have "no_dangling (img_id ` set (images sc)) (img_id ` set (images (fst (fst st, [] :: block_report list))))
     (image_refs (fst (fst st, [] :: block_report list)))"
    by (intro no_dangling_all) simp
  from image_delete_fold_refs[OF this, of "snd st"]
  show ?thesis unfolding r ids_clean_paths by (simp add: st2_def)
qed


subsection \<open>Materials\<close>

lemma remove_material_refs:
  assumes "no_dangling A (mat_id ` set (materials s)) (material_refs s)"
  shows "no_dangling A (mat_id ` set (materials (remove_material x s)))
           (material_refs (remove_material x s))"
  unfolding no_dangling_iff
proof (intro allI impI)
  fix r assume a: "Some r \<in> set (material_refs (remove_material x s))" and b: "r \<in> A"
  from a obtain me slot where me: "me \<in> set (meshes s)" and slot: "slot \<in> set (mesh_materials me)"
    and e: "Some r = (if slot = Some x then None else slot)"
    by (auto simp: material_refs_def remove_material_def)
  from e have ne: "r \<noteq> x" and e': "slot = Some r" by (auto split: if_splits)
  from me slot e' have "Some r \<in> set (material_refs s)" by (force simp: material_refs_def)
  with assms b have "r \<in> mat_id ` set (materials s)" by (simp add: no_dangling_iff)
  then obtain m where "m \<in> set (materials s)" "mat_id m = r" by auto
  with ne have "m \<in> set (materials (remove_material x s))" by (simp add: remove_material_def)
  with \<open>mat_id m = r\<close> show "r \<in> mat_id ` set (materials (remove_material x s))" by auto
qed

lemma material_delete_step_refs:
  assumes "no_dangling A (mat_id ` set (materials (fst st))) (material_refs (fst st))"
  shows "no_dangling A (mat_id ` set (materials (fst (material_delete_step st x))))
           (material_refs (fst (material_delete_step st x)))"
proof (cases st)
  case (Pair s reps)
  show ?thesis
  proof (cases "material_of s x")
    case None
    then show ?thesis using assms Pair by (simp add: material_delete_step_def)
  next
    case (Some mat)
    show ?thesis
    proof (cases "material_users s mat = 0")
      case True
      have "fst (material_delete_step st x) = remove_material x s"
        by (simp add: Pair material_delete_step_def Some True)
      then show ?thesis using remove_material_refs[of A s x] assms Pair by simp
    next
      case False
      have "fst (material_delete_step st x) = s"
        using False by (simp add: Pair material_delete_step_def Some)
      then show ?thesis using assms Pair by simp
    qed
  qed
qed

lemma material_delete_fold_refs:
  assumes "no_dangling A (mat_id ` set (materials (fst st))) (material_refs (fst st))"
  shows "no_dangling A (mat_id ` set (materials (fst (foldl material_delete_step st xs))))
           (material_refs (fst (foldl material_delete_step st xs)))"
  using assms
proof (induction xs arbitrary: st)
  case Nil
  then show ?case by simp
next
  case (Cons x xs)
  from Cons.IH[OF material_delete_step_refs[OF Cons.prems]] show ?case by simp
qed

lemma rename_material_ids:
  "map mat_id (materials (rename_material id_name r nm s)) = map mat_id (materials s)"
proof -
  have "map (mat_id \<circ> (\<lambda>m. if mat_id m = r then m\<lparr>mat_name := f m\<rparr> else m)) xs = map mat_id xs"
    for xs and f :: "material \<Rightarrow> string"
    by (rule map_cong) simp_all
  then show ?thesis by (simp add: rename_material_def)
qed

lemma rename_step_frame:
  "map mat_id (materials (rename_step id_name s item)) = map mat_id (materials s) \<and>
   meshes (rename_step id_name s item) = meshes s"
  by (cases item)
     (simp add: rename_step_def rename_material_ids split: option.splits, simp add: rename_material_def)

lemma rename_fold_frame:
  "map mat_id (materials (foldl (rename_step id_name) s items)) = map mat_id (materials s) \<and>
   meshes (foldl (rename_step id_name) s items) = meshes s"
  by (induction items arbitrary: s) (simp_all add: rename_step_frame)

lemma material_pass_refs:
  "no_dangling (mat_id ` set (materials sc))
     (mat_id ` set (materials (fst (remove_duplicate_materials id_name sc))))
     (material_refs (fst (remove_duplicate_materials id_name sc)))"
proof -
  define st where "st = material_phase1 sc"
  define st2 where "st2 = foldl material_delete_step (fst st, []) (remdups (snd (snd st)))"
  have r: "fst (remove_duplicate_materials id_name sc) = foldl (rename_step id_name) (fst st2) (fst (snd st))"
    by (simp add: remove_duplicate_materials_def split_beta st_def st2_def)
  have "materials (fst st) = materials sc"
    using phase1_frame[of "(sc, [], [])" "images sc"] by (simp add: st_def material_phase1_def)
  then have "no_dangling (mat_id ` set (materials sc))
     (mat_id ` set (materials (fst (fst st, [] :: block_report list))))
     (material_refs (fst (fst st, [] :: block_report list)))"
    by (intro no_dangling_all) simp
  from material_delete_fold_refs[OF this, of "remdups (snd (snd st))"]
  have n: "no_dangling (mat_id ` set (materials sc)) (mat_id ` set (materials (fst st2)))
     (material_refs (fst st2))"
    by (simp add: st2_def)
  have "set (map mat_id (materials (foldl (rename_step id_name) (fst st2) (fst (snd st))))) =
        set (map mat_id (materials (fst st2)))"
    by (simp only: rename_fold_frame)
  then have i: "mat_id ` set (materials (foldl (rename_step id_name) (fst st2) (fst (snd st)))) =
        mat_id ` set (materials (fst st2))"
    by (simp only: set_map)
  have m: "material_refs (foldl (rename_step id_name) (fst st2) (fst (snd st))) = material_refs (fst st2)"
    by (simp add: material_refs_def rename_fold_frame)
  show ?thesis unfolding r i m by (rule n)
qed

subsection \<open>The texture map\<close>

lemma remap_step_ids:
  "map img_id (images (fst (remap_step image_map st r))) = map img_id (images (fst st))"
  by (cases st) (simp add: remap_step_def rename_image_ids relink_def split: option.splits)

lemma remap_fold_ids:
  "map img_id (images (fst (foldl (remap_step image_map) st rs))) = map img_id (images (fst st))"
  by (induction rs arbitrary: st) (simp_all add: remap_step_ids)

lemma remap_pass_refs:
  "no_dangling (img_id ` set (images sc))
     (img_id ` set (images (fst (remap_textures fl sc))))
     (image_refs (fst (remap_textures fl sc)))"
proof (cases fl)
  case None
  then show ?thesis by (simp add: remap_textures_def no_dangling_all)
next
  case (Some ls)
  define st where "st = foldl (remap_step (read_map ls)) (sc, []) (map img_id (images sc))"
  define st2 where "st2 = foldl image_delete_step (fst st, []) (snd st)"
  have r: "fst (remap_textures fl sc) = rename_image_paths (fst st2)"
    by (simp add: remap_textures_def Some split_beta st_def st2_def)
  have "set (map img_id (images (fst st))) = set (map img_id (images sc))"
    by (simp only: st_def remap_fold_ids fst_conv)
  then have "img_id ` set (images (fst st)) = img_id ` set (images sc)"
    by (simp only: set_map)
  then have "no_dangling (img_id ` set (images sc))
     (img_id ` set (images (fst (fst st, [] :: block_report list))))
     (image_refs (fst (fst st, [] :: block_report list)))"
    by (intro no_dangling_all) simp
  from image_delete_fold_refs[OF this, of "snd st"]
  show ?thesis unfolding r ids_clean_paths by (simp add: st2_def)
qed

subsection \<open>The passes\<close>

lemma deleted_not_referenced:
  assumes "no_dangling (set (map f xs)) (set (map f ys)) refs"
    and "r \<in> set (filter (\<lambda>r. r \<notin> set (map f ys)) (map f xs))"
  shows "Some r \<notin> set refs"
  using assms unfolding no_dangling_iff by auto

lemma two_meshes_run:
  "remove_duplicate_meshes (two_meshes [(0, 0, 0), (1, 0, 0), (0, 1, 0)] 0) =
     (\<lparr>images = [], materials = [],
       meshes = [tri_mesh 1 ''Cube'' [(0, 0, 0), (1, 0, 0), (0, 1, 0)] 0],
       objects = [\<lparr>obj_name = ''a'', obj_type = MESH, obj_data = Some 1\<rparr>,
                  \<lparr>obj_name = ''b'', obj_type = MESH, obj_data = Some 1\<rparr>],
       active_object = None\<rparr>,
      [Replaced ''b'' ''Cube.001'' ''Cube'', Deleted ''Cube.001'', Finished 1])"
  by (simp add: mesh_run_defs)

lemma chain_run:
  "remove_duplicate_materials suffix_name
     (chain [tex_material 1 ''m1'' [1], tex_material 2 ''m2'' [1, 2], tex_material 3 ''m3'' [2]]
        [Some 1, Some 2, Some 3]) =
     (chain [tex_material 1 ''m1'' [1], tex_material 2 ''m2'' [1, 2]] [Some 1, Some 1, Some 2],
      [StillUsed ''m2'' 1, Removed ''m3''])"
  by (simp add: material_run_defs)

text \<open>
  Claim C5. After the pass over the meshes, the pass over the images, the texture-map pass
  and the pass over the materials, no reference of the scene (the data of an object, the
  image of a node, a material slot) points at a block that the pass has deleted: a block
  of the scene at the start that is gone at the end. In each pass the loop that rewrites
  the references deletes nothing: all blocks of the category are still there when it
  ends, and the deletion loop runs on its result.
\<close>

theorem no_reference_to_deleted:
  "(\<forall>r\<in>set (deleted_meshes sc (fst (remove_duplicate_meshes sc))).
      Some r \<notin> set (mesh_refs (fst (remove_duplicate_meshes sc)))) \<and>
   deleted_meshes sc (ml_scene (mesh_first_pass sc)) = [] \<and>
   (\<forall>r\<in>set (deleted_images sc (fst (remove_duplicate_images id_name md5 sc))).
      Some r \<notin> set (image_refs (fst (remove_duplicate_images id_name md5 sc)))) \<and>
   deleted_images sc (fst (foldl group_step (sc, []) (image_groups md5 sc))) = [] \<and>
   (\<forall>r\<in>set (deleted_images sc (fst (remap_textures fl sc))).
      Some r \<notin> set (image_refs (fst (remap_textures fl sc)))) \<and>
   deleted_images sc
     (fst (foldl (remap_step (read_map ls)) (sc, []) (map img_id (images sc)))) = [] \<and>
   (\<forall>r\<in>set (deleted_materials sc (fst (remove_duplicate_materials id_name sc))).
      Some r \<notin> set (material_refs (fst (remove_duplicate_materials id_name sc)))) \<and>
   deleted_materials sc (fst (material_phase1 sc)) = []"
proof (intro conjI ballI)
  fix r assume "r \<in> set (deleted_meshes sc (fst (remove_duplicate_meshes sc)))"
  then show "Some r \<notin> set (mesh_refs (fst (remove_duplicate_meshes sc)))"
    unfolding deleted_meshes_def
    by (rule deleted_not_referenced[rotated]) (simp only: set_map mesh_pass_refs)
next
  show "deleted_meshes sc (ml_scene (mesh_first_pass sc)) = []"
    by (simp add: deleted_meshes_def mesh_first_pass_meshes)
next
  fix r assume "r \<in> set (deleted_images sc (fst (remove_duplicate_images id_name md5 sc)))"
  then show "Some r \<notin> set (image_refs (fst (remove_duplicate_images id_name md5 sc)))"
    unfolding deleted_images_def
    by (rule deleted_not_referenced[rotated]) (simp only: set_map image_pass_refs)
next
  show "deleted_images sc (fst (foldl group_step (sc, []) (image_groups md5 sc))) = []"
    by (simp add: deleted_images_def group_fold_images)
next
  fix r assume "r \<in> set (deleted_images sc (fst (remap_textures fl sc)))"
  then show "Some r \<notin> set (image_refs (fst (remap_textures fl sc)))"
    unfolding deleted_images_def
    by (rule deleted_not_referenced[rotated]) (simp only: set_map remap_pass_refs)
next
  show "deleted_images sc
     (fst (foldl (remap_step (read_map ls)) (sc, []) (map img_id (images sc)))) = []"
    by (simp add: deleted_images_def remap_fold_ids)
next
  fix r assume "r \<in> set (deleted_materials sc (fst (remove_duplicate_materials id_name sc)))"
  then show "Some r \<notin> set (material_refs (fst (remove_duplicate_materials id_name sc)))"
    unfolding deleted_materials_def
    by (rule deleted_not_referenced[rotated]) (simp only: set_map material_pass_refs)
next
  have "materials (fst (material_phase1 sc)) = materials sc"
    using phase1_frame[of "(sc, [], [])" "images sc"] by (simp add: material_phase1_def)
  then show "deleted_materials sc (fst (material_phase1 sc)) = []"
    by (simp add: deleted_materials_def)
qed

text \<open>
  The theorem at the two equal triangles (the second mesh is deleted), at the two images
  with the same pixels (the second image is deleted) and at the chain of three materials
  (the third material is deleted).
\<close>

theorem no_reference_to_deleted_witness:
  "deleted_meshes (two_meshes [(0, 0, 0), (1, 0, 0), (0, 1, 0)] 0)
     (fst (remove_duplicate_meshes (two_meshes [(0, 0, 0), (1, 0, 0), (0, 1, 0)] 0))) = [2] \<and>
   Some 2 \<notin> set (mesh_refs
     (fst (remove_duplicate_meshes (two_meshes [(0, 0, 0), (1, 0, 0), (0, 1, 0)] 0)))) \<and>
   deleted_images dup_images (fst (remove_duplicate_images suffix_name md5_example dup_images)) = [2] \<and>
   Some 2 \<notin> set (image_refs (fst (remove_duplicate_images suffix_name md5_example dup_images))) \<and>
   deleted_materials
     (chain [tex_material 1 ''m1'' [1], tex_material 2 ''m2'' [1, 2], tex_material 3 ''m3'' [2]]
        [Some 1, Some 2, Some 3])
     (fst (remove_duplicate_materials suffix_name
        (chain [tex_material 1 ''m1'' [1], tex_material 2 ''m2'' [1, 2], tex_material 3 ''m3'' [2]]
           [Some 1, Some 2, Some 3]))) = [3] \<and>
   Some 3 \<notin> set (material_refs
     (fst (remove_duplicate_materials suffix_name
        (chain [tex_material 1 ''m1'' [1], tex_material 2 ''m2'' [1, 2], tex_material 3 ''m3'' [2]]
           [Some 1, Some 2, Some 3]))))"
proof -
  let ?sc = "two_meshes [(0, 0, 0), (1, 0, 0), (0, 1, 0)] 0"
  let ?sm = "chain [tex_material 1 ''m1'' [1], tex_material 2 ''m2'' [1, 2], tex_material 3 ''m3'' [2]]
        [Some 1, Some 2, Some 3]"
  have d1: "deleted_meshes ?sc (fst (remove_duplicate_meshes ?sc)) = [2]"
    unfolding two_meshes_run
    by (simp add: deleted_meshes_def two_meshes_def mesh_pair_def tri_mesh_def float_mesh_def)
  have d2: "deleted_images dup_images (fst (remove_duplicate_images suffix_name md5_example dup_images)) = [2]"
    unfolding dup_images_run
    by (simp add: deleted_images_def dup_images_def image_scene_def packed_image_def)
  have d3: "deleted_materials ?sm (fst (remove_duplicate_materials suffix_name ?sm)) = [3]"
    unfolding chain_run
    by (simp add: deleted_materials_def chain_def material_scene_def tex_material_def)
  note t1 = no_reference_to_deleted[where sc = ?sc]
  note t2 = no_reference_to_deleted[where sc = dup_images and ?md5.0 = md5_example and id_name = suffix_name]
  note t3 = no_reference_to_deleted[where sc = ?sm and id_name = suffix_name]
  from t1 have "\<forall>r\<in>set (deleted_meshes ?sc (fst (remove_duplicate_meshes ?sc))).
      Some r \<notin> set (mesh_refs (fst (remove_duplicate_meshes ?sc)))"
    by (rule conjunct1)
  then have c1: "Some 2 \<notin> set (mesh_refs (fst (remove_duplicate_meshes ?sc)))"
    by (rule bspec) (unfold d1, simp)
  from t2 have "\<forall>r\<in>set (deleted_images dup_images (fst (remove_duplicate_images suffix_name md5_example dup_images))).
      Some r \<notin> set (image_refs (fst (remove_duplicate_images suffix_name md5_example dup_images)))"
    by blast
  then have c2: "Some 2 \<notin> set (image_refs (fst (remove_duplicate_images suffix_name md5_example dup_images)))"
    by (rule bspec) (unfold d2, simp)
  from t3 have "\<forall>r\<in>set (deleted_materials ?sm (fst (remove_duplicate_materials suffix_name ?sm))).
      Some r \<notin> set (material_refs (fst (remove_duplicate_materials suffix_name ?sm)))"
    by blast
  then have c3: "Some 3 \<notin> set (material_refs (fst (remove_duplicate_materials suffix_name ?sm)))"
    by (rule bspec) (unfold d3, simp)
  from d1 c1 d2 c2 d3 c3 show ?thesis by (intro conjI)
qed

section \<open>Proofs: the deletion loops\<close>

subsection \<open>Images and materials\<close>

lemma find_distinct:
  assumes "distinct (map f xs)" and "x \<in> set xs"
  shows "find (\<lambda>y. f y = f x) xs = Some x"
  using assms
proof (induction xs)
  case Nil
  then show ?case by simp
next
  case (Cons a xs)
  then show ?case by (cases "a = x") (auto simp: image_iff)
qed

lemma image_delete_step_filter:
  "\<exists>P. images (fst (image_delete_step st r)) = filter P (images (fst st))"
proof (cases st)
  case (Pair s reports)
  show ?thesis
  proof (cases "image_of s r")
    case None
    with Pair have "images (fst (image_delete_step st r)) = filter (\<lambda>_. True) (images (fst st))"
      by (simp add: image_delete_step_def)
    then show ?thesis by blast
  next
    case (Some img)
    show ?thesis
    proof (cases "image_users s img = 0")
      case True
      with Pair Some have "images (fst (image_delete_step st r)) =
          filter (\<lambda>i. img_id i \<noteq> r) (images (fst st))"
        by (simp add: image_delete_step_def remove_image_def)
      then show ?thesis by blast
    next
      case False
      with Pair Some have "images (fst (image_delete_step st r)) = filter (\<lambda>_. True) (images (fst st))"
        by (simp add: image_delete_step_def)
      then show ?thesis by blast
    qed
  qed
qed

lemma image_delete_fold_distinct:
  "distinct (map img_id (images (fst st))) \<Longrightarrow>
   distinct (map img_id (images (fst (foldl image_delete_step st rs))))"
proof (induction rs arbitrary: st)
  case Nil
  then show ?case by simp
next
  case (Cons r rs)
  from image_delete_step_filter[of st r] obtain P where
    "images (fst (image_delete_step st r)) = filter P (images (fst st))" by blast
  then have "distinct (map img_id (images (fst (image_delete_step st r))))"
    using Cons.prems by (simp add: distinct_map_filter)
  from Cons.IH[OF this] show ?case by simp
qed

lemma material_delete_fold_distinct:
  "distinct (map mat_id (materials (fst st))) \<Longrightarrow>
   distinct (map mat_id (materials (fst (foldl material_delete_step st rs))))"
proof -
  assume d: "distinct (map mat_id (materials (fst st)))"
  from phase2_filter[of st rs] obtain P where
    "materials (fst (foldl material_delete_step st rs)) = filter P (materials (fst st))" by blast
  then show ?thesis using d by (simp add: distinct_map_filter)
qed

lemma image_deletion_Suc:
  assumes "k < length (image_deletions md5 sc)"
  shows "image_deletion_state md5 sc (Suc k) =
           image_delete_step (image_deletion_state md5 sc k) (image_deletions md5 sc ! k)"
  using assms by (simp add: image_deletion_state_def take_Suc_conv_app_nth)

lemma material_deletion_Suc:
  assumes "k < length (material_deletions sc)"
  shows "material_deletion_state sc (Suc k) =
           material_delete_step (material_deletion_state sc k) (material_deletions sc ! k)"
  using assms by (simp add: material_deletion_state_def take_Suc_conv_app_nth)

lemma mesh_deletion_Suc:
  assumes "k < length (mesh_deletions sc)"
  shows "mesh_deletion_state sc (Suc k) =
           mesh_delete_step (mesh_deletion_state sc k) (mesh_deletions sc ! k)"
  using assms by (simp add: mesh_deletion_state_def take_Suc_conv_app_nth)

lemma image_deletion_step:
  assumes d: "distinct (map img_id (images sc))"
    and k: "k < length (image_deletions md5 sc)"
    and img: "img \<in> set (images (fst (image_deletion_state md5 sc k)))"
    and r: "img_id img = image_deletions md5 sc ! k"
  shows "image_deletion_state md5 sc (Suc k) =
           (if image_users (fst (image_deletion_state md5 sc k)) img = 0
            then (remove_image (img_id img) (fst (image_deletion_state md5 sc k)),
                  snd (image_deletion_state md5 sc k) @ [Removed (img_name img)])
            else (fst (image_deletion_state md5 sc k),
                  snd (image_deletion_state md5 sc k) @
                    [StillUsed (img_name img)
                       (image_users (fst (image_deletion_state md5 sc k)) img)]))"
proof -
  let ?st = "image_deletion_state md5 sc k"
  have "distinct (map img_id (images (fst (foldl group_step (sc, []) (image_groups md5 sc)))))"
    using d by (simp add: group_fold_images)
  then have "distinct (map img_id (images (fst ?st)))"
    unfolding image_deletion_state_def
    by (intro image_delete_fold_distinct) simp
  from find_distinct[OF this img] have f: "image_of (fst ?st) (img_id img) = Some img"
    by (simp add: image_of_def)
  show ?thesis unfolding image_deletion_Suc[OF k] r[symmetric]
    by (cases ?st) (use f in \<open>simp add: image_delete_step_def\<close>)
qed

lemma material_deletion_step:
  assumes d: "distinct (map mat_id (materials sc))"
    and k: "k < length (material_deletions sc)"
    and mat: "mat \<in> set (materials (fst (material_deletion_state sc k)))"
    and r: "mat_id mat = material_deletions sc ! k"
  shows "material_deletion_state sc (Suc k) =
           (if material_users (fst (material_deletion_state sc k)) mat = 0
            then (remove_material (mat_id mat) (fst (material_deletion_state sc k)),
                  snd (material_deletion_state sc k) @ [Removed (mat_name mat)])
            else (fst (material_deletion_state sc k),
                  snd (material_deletion_state sc k) @
                    [StillUsed (mat_name mat)
                       (material_users (fst (material_deletion_state sc k)) mat)]))"
proof -
  let ?st = "material_deletion_state sc k"
  have "materials (fst (material_phase1 sc)) = materials sc"
    using phase1_frame[of "(sc, [], [])" "images sc"] by (simp add: material_phase1_def)
  then have "distinct (map mat_id (materials (fst (material_phase1 sc))))" using d by simp
  then have "distinct (map mat_id (materials (fst ?st)))"
    unfolding material_deletion_state_def
    by (intro material_delete_fold_distinct) simp
  from find_distinct[OF this mat] have f: "material_of (fst ?st) (mat_id mat) = Some mat"
    by (simp add: material_of_def)
  show ?thesis unfolding material_deletion_Suc[OF k] r[symmetric]
    by (cases ?st) (use f in \<open>simp add: material_delete_step_def\<close>)
qed

subsection \<open>Meshes\<close>

lemma source_of_key_cong:
  assumes "key_eq g g'"
  shows "source_of sc ms g = source_of sc ms g'"
proof -
  have "key_eq (geom_hash m) g \<longleftrightarrow> key_eq (geom_hash m) g'" for m
    using assms by (blast intro: key_eq_trans key_eq_sym)
  then show ?thesis by (simp add: source_of_def)
qed

lemma repoint_not_queued:
  assumes d: "distinct (map mesh_id ms)" and m: "m \<in> set ms" and q: "queued sc ms m"
  shows "repoint sc ms r \<noteq> mesh_id m"
proof
  assume eq: "repoint sc ms r = mesh_id m"
  have inj: "mesh_id a = mesh_id b \<Longrightarrow> a = b" if "a \<in> set ms" "b \<in> set ms" for a b
    using d that by (auto simp: distinct_map inj_on_def)
  from q have used: "mesh_users sc m \<noteq> 0" by (simp add: queued_def)
  from q obtain src where src: "source_of sc ms (geom_hash m) = Some src" "src \<noteq> m"
    by (auto simp: queued_def split: option.splits)
  show False
  proof (cases "find (\<lambda>m'. mesh_id m' = r \<and> mesh_users sc m' \<noteq> 0) ms")
    case None
    then have "r = mesh_id m" using eq by (simp add: repoint_def)
    with None m used show False by (auto simp: find_None_iff)
  next
    case (Some m')
    then have m': "m' \<in> set ms" "mesh_id m' = r" "mesh_users sc m' \<noteq> 0"
      by (auto simp: find_Some_iff)
    show False
    proof (cases "source_of sc ms (geom_hash m')")
      case None
      with Some eq have "r = mesh_id m" by (simp add: repoint_def)
      with m'(2) have "m' = m" using inj[OF m'(1) m] by simp
      with None src show False by simp
    next
      case s: (Some s)
      with Some eq have "mesh_id s = mesh_id m" by (simp add: repoint_def)
      moreover have "s \<in> set ms" "key_eq (geom_hash s) (geom_hash m')"
        using source_of_in[OF s] by simp_all
      ultimately have sm: "s = m" and k: "key_eq (geom_hash m) (geom_hash m')"
        using inj[OF _ m, of s] by simp_all
      from source_of_key_cong[OF k] s sm src show False by simp
    qed
  qed
qed

lemma users_queued:
  assumes d: "distinct (map mesh_id ms)" and m: "m \<in> set ms" and q: "queued sc ms m"
  shows "filter (\<lambda>obj. obj_data obj = Some (mesh_id m)) (repointed sc ms) = []"
    and "mesh_users (sc\<lparr>objects := repointed sc ms\<rparr>) m = 0"
proof -
  have "map_option (repoint sc ms) x \<noteq> Some (mesh_id m)" for x
    using repoint_not_queued[OF d m q] by (cases x) auto
  then show a: "filter (\<lambda>obj. obj_data obj = Some (mesh_id m)) (repointed sc ms) = []"
    by (simp add: repointed_def filter_map comp_def del: map_option_eq_Some)
  from q have "mesh_extra_users m = 0" by (simp add: queued_def)
  with a show "mesh_users (sc\<lparr>objects := repointed sc ms\<rparr>) m = 0"
    by (simp add: mesh_users_def)
qed

lemma mesh_deletion_state_scene:
  assumes d: "distinct (map mesh_id (meshes sc))" and dn: "distinct (map mesh_name (meshes sc))"
    and k: "k \<le> length (mesh_deletions sc)"
  shows "fst (mesh_deletion_state sc k) =
           (ml_scene (mesh_first_pass sc))
             \<lparr>meshes := filter (\<lambda>m. mesh_name m \<notin> set (take k (mesh_deletions sc))) (meshes sc)\<rparr>"
  using k
proof (induction k)
  case 0
  have "meshes (ml_scene (mesh_first_pass sc)) = meshes sc" by (rule mesh_first_pass_meshes)
  then show ?case by (simp add: mesh_deletion_state_def)
next
  case (Suc k)
  let ?ms = "meshes sc"
  let ?s0 = "ml_scene (mesh_first_pass sc)"
  let ?names = "mesh_deletions sc"
  let ?sk = "fst (mesh_deletion_state sc k)"
  from Suc.prems have kl: "k < length ?names" by simp
  have inv: "mesh_inv sc ?ms (mesh_first_pass sc)" by (rule mesh_inv_first_pass[OF d])
  have names: "?names = map mesh_name (filter (queued sc ?ms) ?ms)"
    using inv by (simp add: mesh_inv_def mesh_deletions_def)
  have s0: "?s0 = sc\<lparr>objects := repointed sc ?ms\<rparr>" using inv by (simp add: mesh_inv_def)
  have sk: "?sk = ?s0\<lparr>meshes := filter (\<lambda>m. mesh_name m \<notin> set (take k ?names)) ?ms\<rparr>"
    using Suc.IH kl by simp
  define mk where "mk = filter (queued sc ?ms) ?ms ! k"
  have kq: "k < length (filter (queued sc ?ms) ?ms)" using kl names by simp
  have mk_in: "mk \<in> set ?ms" and mk_q: "queued sc ?ms mk"
    using nth_mem[OF kq] by (simp_all add: mk_def)
  have mk_name: "mesh_name mk = ?names ! k" using kq by (simp add: names mk_def)
  have dnames: "distinct ?names"
    unfolding names using dn by (rule distinct_map_filter)
  have notin: "mesh_name mk \<notin> set (take k ?names)"
  proof
    assume "mesh_name mk \<in> set (take k ?names)"
    then obtain j where j: "j < k" "take k ?names ! j = mesh_name mk"
      by (auto simp: in_set_conv_nth)
    then have "?names ! j = ?names ! k" using mk_name by simp
    with dnames j(1) kl show False by (simp add: nth_eq_iff_index_eq)
  qed
  have name_inj: "mesh_name a = mesh_name b \<Longrightarrow> a = b" if "a \<in> set ?ms" "b \<in> set ?ms" for a b
    using dn that by (auto simp: distinct_map inj_on_def)
  have id_inj: "mesh_id a = mesh_id b \<Longrightarrow> a = b" if "a \<in> set ?ms" "b \<in> set ?ms" for a b
    using d that by (auto simp: distinct_map inj_on_def)
  have "mk \<in> set (filter (\<lambda>m. mesh_name m \<notin> set (take k ?names)) ?ms)"
    using mk_in notin by simp
  moreover have "distinct (map mesh_name (filter (\<lambda>m. mesh_name m \<notin> set (take k ?names)) ?ms))"
    using dn by (rule distinct_map_filter)
  ultimately have "find (\<lambda>y. mesh_name y = mesh_name mk)
      (filter (\<lambda>m. mesh_name m \<notin> set (take k ?names)) ?ms) = Some mk"
    by (rule find_distinct[rotated])
  then have get: "get_mesh ?sk (?names ! k) = Some mk"
    by (simp add: get_mesh_def sk mk_name)
  have objs: "filter (\<lambda>obj. obj_data obj \<noteq> Some (mesh_id mk)) (objects ?s0) = objects ?s0"
  proof -
    have "filter (\<lambda>obj. obj_data obj = Some (mesh_id mk)) (objects ?s0) = []"
      using users_queued(1)[OF d mk_in mk_q] by (simp add: s0)
    then have "\<forall>obj\<in>set (objects ?s0). obj_data obj \<noteq> Some (mesh_id mk)"
      by (simp add: filter_empty_conv)
    then show ?thesis by simp
  qed
  have ms: "filter (\<lambda>m. mesh_name m \<notin> set (take k ?names) \<and> mesh_id m \<noteq> mesh_id mk) ?ms =
            filter (\<lambda>m. mesh_name m \<notin> set (take (Suc k) ?names)) ?ms"
  proof (rule filter_cong[OF refl])
    fix m assume that: "m \<in> set ?ms"
    show "(mesh_name m \<notin> set (take k ?names) \<and> mesh_id m \<noteq> mesh_id mk) \<longleftrightarrow>
          mesh_name m \<notin> set (take (Suc k) ?names)"
      using id_inj[OF that mk_in] name_inj[OF that mk_in] kl mk_name
      by (auto simp: take_Suc_conv_app_nth)
  qed
  have "fst (mesh_deletion_state sc (Suc k)) = remove_mesh mk ?sk"
    unfolding mesh_deletion_Suc[OF kl]
    by (cases "mesh_deletion_state sc k") (use get in \<open>simp add: mesh_delete_step_def\<close>)
  also have "\<dots> = ?s0\<lparr>meshes := filter (\<lambda>m. mesh_name m \<notin> set (take (Suc k) ?names)) ?ms\<rparr>"
    unfolding sk by (simp add: remove_mesh_def objs ms)
  finally show ?case .
qed


lemma mesh_deletion_step:
  assumes d: "distinct (map mesh_id (meshes sc))" and dn: "distinct (map mesh_name (meshes sc))"
    and kl: "k < length (mesh_deletions sc)"
  shows "\<exists>m\<in>set (meshes (fst (mesh_deletion_state sc k))).
           mesh_name m = mesh_deletions sc ! k \<and>
           mesh_users (fst (mesh_deletion_state sc k)) m = 0 \<and>
           mesh_deletion_state sc (Suc k) =
             (remove_mesh m (fst (mesh_deletion_state sc k)),
              snd (mesh_deletion_state sc k) @ [Deleted (mesh_deletions sc ! k)])"
proof -
  let ?ms = "meshes sc"
  let ?s0 = "ml_scene (mesh_first_pass sc)"
  let ?names = "mesh_deletions sc"
  let ?sk = "fst (mesh_deletion_state sc k)"
  have inv: "mesh_inv sc ?ms (mesh_first_pass sc)" by (rule mesh_inv_first_pass[OF d])
  have names: "?names = map mesh_name (filter (queued sc ?ms) ?ms)"
    using inv by (simp add: mesh_inv_def mesh_deletions_def)
  have s0: "?s0 = sc\<lparr>objects := repointed sc ?ms\<rparr>" using inv by (simp add: mesh_inv_def)
  have sk: "?sk = ?s0\<lparr>meshes := filter (\<lambda>m. mesh_name m \<notin> set (take k ?names)) ?ms\<rparr>"
    by (rule mesh_deletion_state_scene[OF d dn]) (use kl in simp)
  define mk where "mk = filter (queued sc ?ms) ?ms ! k"
  have kq: "k < length (filter (queued sc ?ms) ?ms)" using kl names by simp
  have mk_in: "mk \<in> set ?ms" and mk_q: "queued sc ?ms mk"
    using nth_mem[OF kq] by (simp_all add: mk_def)
  have mk_name: "mesh_name mk = ?names ! k" using kq by (simp add: names mk_def)
  have dnames: "distinct ?names"
    unfolding names using dn by (rule distinct_map_filter)
  have notin: "mesh_name mk \<notin> set (take k ?names)"
  proof
    assume "mesh_name mk \<in> set (take k ?names)"
    then obtain j where j: "j < k" "take k ?names ! j = mesh_name mk"
      by (auto simp: in_set_conv_nth)
    then have "?names ! j = ?names ! k" using mk_name by simp
    with dnames j(1) kl show False by (simp add: nth_eq_iff_index_eq)
  qed
  have in_sk: "mk \<in> set (meshes ?sk)" using mk_in notin by (simp add: sk)
  have "distinct (map mesh_name (meshes ?sk))"
    unfolding sk using dn by (simp add: distinct_map_filter)
  from find_distinct[OF this in_sk] have get: "get_mesh ?sk (?names ! k) = Some mk"
    by (simp add: get_mesh_def mk_name)
  have "mesh_users ?sk mk = mesh_users ?s0 mk" by (simp add: sk mesh_users_def)
  also have "\<dots> = 0" unfolding s0 by (rule users_queued(2)[OF d mk_in mk_q])
  finally have u: "mesh_users ?sk mk = 0" .
  have "mesh_deletion_state sc (Suc k) =
          (remove_mesh mk ?sk, snd (mesh_deletion_state sc k) @ [Deleted (?names ! k)])"
    unfolding mesh_deletion_Suc[OF kl]
    by (cases "mesh_deletion_state sc k") (use get in \<open>simp add: mesh_delete_step_def\<close>)
  with in_sk mk_name u show ?thesis by blast
qed

lemma deletion_states_final:
  "remove_duplicate_meshes sc =
     (fst (mesh_deletion_state sc (length (mesh_deletions sc))),
      snd (mesh_deletion_state sc (length (mesh_deletions sc))) @
        [if duplicates_found (mesh_first_pass sc) = 0 then NoDuplicates
         else Finished (duplicates_found (mesh_first_pass sc))])"
  "list_ex (\<lambda>g. 1 < length (snd g)) (image_groups md5 sc) \<Longrightarrow>
   remove_duplicate_images id_name md5 sc =
     (rename_image_paths (clean_image_names id_name
        (fst (image_deletion_state md5 sc (length (image_deletions md5 sc))))),
      snd (image_deletion_state md5 sc (length (image_deletions md5 sc))))"
  "remove_duplicate_materials id_name sc =
     (foldl (rename_step id_name)
        (fst (material_deletion_state sc (length (material_deletions sc))))
        (fst (snd (material_phase1 sc))),
      snd (material_deletion_state sc (length (material_deletions sc))))"
  by (simp_all add: remove_duplicate_meshes_def mesh_deletion_state_def mesh_deletions_def
      remove_duplicate_images_def image_deletion_state_def image_deletions_def
      remove_duplicate_materials_def material_deletion_state_def material_deletions_def
      Let_def split_beta)

subsection \<open>A block is deleted only without users\<close>

text \<open>
  Claim C3 (as amended). In the pass over the images and in the pass over the materials
  (with distinct identities), when the deletion loop reaches a queued block that is still
  in the scene, it reads the user count of the block in the scene of that moment: at
  zero the block is removed and the removal is reported, otherwise the scene stays as it
  is and the block is reported with its count. In the pass over the meshes (with distinct
  identities and names) the deletion loop reads no count; the count is read in the first
  loop, after the objects of a duplicate have been repointed, and only a mesh whose count
  is zero then is queued. Every name of the queue still names a mesh of the scene when the
  loop reaches it, that mesh has no user at that moment, and it is removed and reported.
  The last three parts say that the passes end in the state after the last entry of the
  queue.
\<close>

theorem deleted_only_unused:
  "(distinct (map img_id (images sc)) \<longrightarrow>
    (\<forall>k<length (image_deletions md5 sc).
            \<forall>img\<in>set (images (fst (image_deletion_state md5 sc k))).
              img_id img = image_deletions md5 sc ! k \<longrightarrow>
              image_deletion_state md5 sc (Suc k) =
                (if image_users (fst (image_deletion_state md5 sc k)) img = 0
                 then (remove_image (img_id img) (fst (image_deletion_state md5 sc k)),
                       snd (image_deletion_state md5 sc k) @ [Removed (img_name img)])
                 else (fst (image_deletion_state md5 sc k),
                       snd (image_deletion_state md5 sc k) @
                         [StillUsed (img_name img)
                            (image_users (fst (image_deletion_state md5 sc k)) img)])))) \<and>
   (distinct (map mat_id (materials sc)) \<longrightarrow>
         (\<forall>k<length (material_deletions sc).
            \<forall>mat\<in>set (materials (fst (material_deletion_state sc k))).
              mat_id mat = material_deletions sc ! k \<longrightarrow>
              material_deletion_state sc (Suc k) =
                (if material_users (fst (material_deletion_state sc k)) mat = 0
                 then (remove_material (mat_id mat) (fst (material_deletion_state sc k)),
                       snd (material_deletion_state sc k) @ [Removed (mat_name mat)])
                 else (fst (material_deletion_state sc k),
                       snd (material_deletion_state sc k) @
                         [StillUsed (mat_name mat)
                            (material_users (fst (material_deletion_state sc k)) mat)])))) \<and>
   (distinct (map mesh_id (meshes sc)) \<and> distinct (map mesh_name (meshes sc)) \<longrightarrow>
         (\<forall>k<length (mesh_deletions sc).
            \<exists>m\<in>set (meshes (fst (mesh_deletion_state sc k))).
              mesh_name m = mesh_deletions sc ! k \<and>
              mesh_users (fst (mesh_deletion_state sc k)) m = 0 \<and>
              mesh_deletion_state sc (Suc k) =
                (remove_mesh m (fst (mesh_deletion_state sc k)),
                 snd (mesh_deletion_state sc k) @ [Deleted (mesh_deletions sc ! k)]))) \<and>
         (list_ex (\<lambda>g. 1 < length (snd g)) (image_groups md5 sc) \<longrightarrow>
            remove_duplicate_images id_name md5 sc =
              (rename_image_paths (clean_image_names id_name
                 (fst (image_deletion_state md5 sc (length (image_deletions md5 sc))))),
               snd (image_deletion_state md5 sc (length (image_deletions md5 sc))))) \<and>
         remove_duplicate_materials id_name sc =
           (foldl (rename_step id_name)
              (fst (material_deletion_state sc (length (material_deletions sc))))
              (fst (snd (material_phase1 sc))),
            snd (material_deletion_state sc (length (material_deletions sc)))) \<and>
         remove_duplicate_meshes sc =
           (fst (mesh_deletion_state sc (length (mesh_deletions sc))),
            snd (mesh_deletion_state sc (length (mesh_deletions sc))) @
              [if duplicates_found (mesh_first_pass sc) = 0 then NoDuplicates
               else Finished (duplicates_found (mesh_first_pass sc))])"
proof (intro conjI allI impI ballI)
  fix k img
  assume d: "distinct (map img_id (images sc))"
  assume "k < length (image_deletions md5 sc)"
    and "img \<in> set (images (fst (image_deletion_state md5 sc k)))"
    and "img_id img = image_deletions md5 sc ! k"
  then show "image_deletion_state md5 sc (Suc k) =
                (if image_users (fst (image_deletion_state md5 sc k)) img = 0
                 then (remove_image (img_id img) (fst (image_deletion_state md5 sc k)),
                       snd (image_deletion_state md5 sc k) @ [Removed (img_name img)])
                 else (fst (image_deletion_state md5 sc k),
                       snd (image_deletion_state md5 sc k) @
                         [StillUsed (img_name img)
                            (image_users (fst (image_deletion_state md5 sc k)) img)]))"
    by (rule image_deletion_step[OF d])
next
  fix k mat
  assume d: "distinct (map mat_id (materials sc))"
  assume "k < length (material_deletions sc)"
    and "mat \<in> set (materials (fst (material_deletion_state sc k)))"
    and "mat_id mat = material_deletions sc ! k"
  then show "material_deletion_state sc (Suc k) =
                (if material_users (fst (material_deletion_state sc k)) mat = 0
                 then (remove_material (mat_id mat) (fst (material_deletion_state sc k)),
                       snd (material_deletion_state sc k) @ [Removed (mat_name mat)])
                 else (fst (material_deletion_state sc k),
                       snd (material_deletion_state sc k) @
                         [StillUsed (mat_name mat)
                            (material_users (fst (material_deletion_state sc k)) mat)]))"
    by (rule material_deletion_step[OF d])
next
  fix k
  assume d: "distinct (map mesh_id (meshes sc)) \<and> distinct (map mesh_name (meshes sc))"
  assume "k < length (mesh_deletions sc)"
  then show "\<exists>m\<in>set (meshes (fst (mesh_deletion_state sc k))).
              mesh_name m = mesh_deletions sc ! k \<and>
              mesh_users (fst (mesh_deletion_state sc k)) m = 0 \<and>
              mesh_deletion_state sc (Suc k) =
                (remove_mesh m (fst (mesh_deletion_state sc k)),
                 snd (mesh_deletion_state sc k) @ [Deleted (mesh_deletions sc ! k)])"
    by (rule mesh_deletion_step[OF conjunct1[OF d] conjunct2[OF d]])
next
  assume "list_ex (\<lambda>g. 1 < length (snd g)) (image_groups md5 sc)"
  then show "remove_duplicate_images id_name md5 sc =
              (rename_image_paths (clean_image_names id_name
                 (fst (image_deletion_state md5 sc (length (image_deletions md5 sc))))),
               snd (image_deletion_state md5 sc (length (image_deletions md5 sc))))"
    by (rule deletion_states_final(2))
next
  show "remove_duplicate_materials id_name sc =
           (foldl (rename_step id_name)
              (fst (material_deletion_state sc (length (material_deletions sc))))
              (fst (snd (material_phase1 sc))),
            snd (material_deletion_state sc (length (material_deletions sc))))"
    by (rule deletion_states_final(3))
next
  show "remove_duplicate_meshes sc =
           (fst (mesh_deletion_state sc (length (mesh_deletions sc))),
            snd (mesh_deletion_state sc (length (mesh_deletions sc))) @
              [if duplicates_found (mesh_first_pass sc) = 0 then NoDuplicates
               else Finished (duplicates_found (mesh_first_pass sc))])"
    by (rule deletion_states_final(1))
qed

lemmas deletion_run_defs =
  mesh_deletions_def mesh_deletion_state_def image_deletions_def image_deletion_state_def
  material_deletions_def material_deletion_state_def

text \<open>
  The theorem at the first entry of each queue: the second of two images with the same
  pixels is removed, the material \<open>m2\<close> of the chain is still used and stays, and the second
  of two equal triangles is removed.
\<close>

theorem deleted_only_unused_witness:
  "snd (image_deletion_state md5_example dup_images 1) = [Removed ''T_1.png.001''] \<and>
   snd (material_deletion_state
          (chain [tex_material 1 ''m1'' [1], tex_material 2 ''m2'' [1, 2], tex_material 3 ''m3'' [2]]
             [Some 1, Some 2, Some 3]) 1) = [StillUsed ''m2'' 1] \<and>
   snd (mesh_deletion_state (two_meshes [(0, 0, 0), (1, 0, 0), (0, 1, 0)] 0) 1) =
     [Replaced ''b'' ''Cube.001'' ''Cube'', Deleted ''Cube.001'']"
proof -
  let ?sm = "chain [tex_material 1 ''m1'' [1], tex_material 2 ''m2'' [1, 2], tex_material 3 ''m3'' [2]]
             [Some 1, Some 2, Some 3]"
  let ?sc = "two_meshes [(0, 0, 0), (1, 0, 0), (0, 1, 0)] 0"
  let ?img = "packed_image 2 ''T_1.png.001'' 1 ''//textures/copy.png''"
  let ?mat = "tex_material 2 ''m2'' [1, 2]"
  note t1 = deleted_only_unused[where sc = dup_images and ?md5.0 = md5_example]
  note t2 = deleted_only_unused[where sc = ?sm]
  note t3 = deleted_only_unused[where sc = ?sc]
  have i1: "distinct (map img_id (images dup_images))"
    by (simp add: dup_images_def image_scene_def packed_image_def)
  have i2: "0 < length (image_deletions md5_example dup_images)"
    by (simp add: deletion_run_defs image_run_defs dup_images_def md5_example_def)
  have i3: "?img \<in> set (images (fst (image_deletion_state md5_example dup_images 0)))"
    by (simp add: deletion_run_defs image_run_defs dup_images_def md5_example_def)
  have i4: "img_id ?img = image_deletions md5_example dup_images ! 0"
    by (simp add: deletion_run_defs image_run_defs dup_images_def md5_example_def)
  from t1 i1 i2 i3 i4
  have i: "image_deletion_state md5_example dup_images (Suc 0) =
                (if image_users (fst (image_deletion_state md5_example dup_images 0)) ?img = 0
                 then (remove_image (img_id ?img) (fst (image_deletion_state md5_example dup_images 0)),
                       snd (image_deletion_state md5_example dup_images 0) @ [Removed (img_name ?img)])
                 else (fst (image_deletion_state md5_example dup_images 0),
                       snd (image_deletion_state md5_example dup_images 0) @
                         [StillUsed (img_name ?img)
                            (image_users (fst (image_deletion_state md5_example dup_images 0)) ?img)]))"
    by blast
  have c1: "snd (image_deletion_state md5_example dup_images 1) = [Removed ''T_1.png.001'']"
    unfolding One_nat_def i
    by (simp add: deletion_run_defs image_run_defs dup_images_def md5_example_def)
  have m1: "distinct (map mat_id (materials ?sm))"
    by (simp add: chain_def material_scene_def tex_material_def)
  have m2: "0 < length (material_deletions ?sm)"
    by (simp add: deletion_run_defs material_run_defs)
  have m3: "?mat \<in> set (materials (fst (material_deletion_state ?sm 0)))"
    by (simp add: deletion_run_defs material_run_defs)
  have m4: "mat_id ?mat = material_deletions ?sm ! 0"
    by (simp add: deletion_run_defs material_run_defs)
  from t2 m1 m2 m3 m4
  have m: "material_deletion_state ?sm (Suc 0) =
                (if material_users (fst (material_deletion_state ?sm 0)) ?mat = 0
                 then (remove_material (mat_id ?mat) (fst (material_deletion_state ?sm 0)),
                       snd (material_deletion_state ?sm 0) @ [Removed (mat_name ?mat)])
                 else (fst (material_deletion_state ?sm 0),
                       snd (material_deletion_state ?sm 0) @
                         [StillUsed (mat_name ?mat)
                            (material_users (fst (material_deletion_state ?sm 0)) ?mat)]))"
    by blast
  have c2: "snd (material_deletion_state ?sm 1) = [StillUsed ''m2'' 1]"
    unfolding One_nat_def m
    by (simp add: deletion_run_defs material_run_defs)
  have s1: "distinct (map mesh_id (meshes ?sc)) \<and> distinct (map mesh_name (meshes ?sc))"
    by (simp add: two_meshes_def mesh_pair_def tri_mesh_def float_mesh_def)
  have s2: "0 < length (mesh_deletions ?sc)"
    by (simp add: deletion_run_defs mesh_run_defs)
  from t3 s1 s2
  have "\<exists>m\<in>set (meshes (fst (mesh_deletion_state ?sc 0))).
              mesh_name m = mesh_deletions ?sc ! 0 \<and>
              mesh_users (fst (mesh_deletion_state ?sc 0)) m = 0 \<and>
              mesh_deletion_state ?sc (Suc 0) =
                (remove_mesh m (fst (mesh_deletion_state ?sc 0)),
                 snd (mesh_deletion_state ?sc 0) @ [Deleted (mesh_deletions ?sc ! 0)])"
    by blast
  then have "snd (mesh_deletion_state ?sc (Suc 0)) =
      snd (mesh_deletion_state ?sc 0) @ [Deleted (mesh_deletions ?sc ! 0)]"
    by auto
  then have c3: "snd (mesh_deletion_state ?sc 1) =
     [Replaced ''b'' ''Cube.001'' ''Cube'', Deleted ''Cube.001'']"
    unfolding One_nat_def
    by (simp add: deletion_run_defs mesh_run_defs)
  from c1 c2 c3 show ?thesis by (intro conjI)
qed

text \<open>
  Claim C3 as stated has every pass report a block that it keeps because of its count. The
  pass over the meshes does not: when the second of two equal triangles has a further
  user, its object is repointed, the mesh stays with one user, and nothing is printed
  about it.
\<close>

theorem deleted_only_unused_counterexample:
  "remove_duplicate_meshes (two_meshes [(0, 0, 0), (1, 0, 0), (0, 1, 0)] 1) =
     (mesh_pair (tri_mesh 1 ''Cube'' [(0, 0, 0), (1, 0, 0), (0, 1, 0)] 0)
                (tri_mesh 2 ''Cube.001'' [(0, 0, 0), (1, 0, 0), (0, 1, 0)] 1)
        \<lparr>objects := [\<lparr>obj_name = ''a'', obj_type = MESH, obj_data = Some 1\<rparr>,
                     \<lparr>obj_name = ''b'', obj_type = MESH, obj_data = Some 1\<rparr>]\<rparr>,
      [Replaced ''b'' ''Cube.001'' ''Cube'', Finished 1]) \<and>
   mesh_users (fst (remove_duplicate_meshes (two_meshes [(0, 0, 0), (1, 0, 0), (0, 1, 0)] 1)))
     (tri_mesh 2 ''Cube.001'' [(0, 0, 0), (1, 0, 0), (0, 1, 0)] 1) = 1"
  by (simp add: mesh_run_defs)

section \<open>Proofs: running a pass twice\<close>

subsection \<open>The pass over the meshes\<close>










subsection \<open>The pass over the material slots\<close>










subsection \<open>Which passes change nothing on a second run\<close>





end
